theory Spec2Isabelle
  imports Main "HOL-Library.Word" "HOL-Library.List_Lexorder"
begin

section \<open>Grammar kernel: character sets and the token rule\<close>

subsection \<open>Character sets\<close>

text \<open>
  Modelled from the spec: \<^verbatim>\<open>grammar::lut_chars\<close> (grammar/lut_chars.hpp is not among the
  sources). The spec describes a character-set predicate as a value implementing
  "byte \<open>\<rightarrow>\<close> boolean", representable by a 256-entry lookup table. A table built from a
  string constant holds exactly the bytes of that string.
\<close>

definition lut_chars :: "string \<Rightarrow> char \<Rightarrow> bool" where
  "lut_chars s c = (c \<in> set s)"

text \<open>
  rfc/sub_delim_chars.hpp:
  \<^verbatim>\<open>constexpr grammar::lut_chars sub_delim_chars = "!$&()*+,;=\x27";\<close>
  The last byte of the initializer is written as the escape \<^verbatim>\<open>\x27\<close>.
\<close>

definition sub_delim_chars :: "char \<Rightarrow> bool" where
  "sub_delim_chars = lut_chars (''!$&()*+,;='' @ [CHR 0x27])"

subsection \<open>The token rule\<close>

text \<open>
  \<^verbatim>\<open>error_code\<close>: the default-constructed value is success; the other values are the
  kinds of failure the grammar reports (the spec's taxonomy: a rule mismatch, and
  \<open>invalid_percent\<close> for a \<open>%\<close> not followed by two hex digits).
\<close>

datatype error_code = success | error_mismatch | error_invalid_percent

text \<open>
  A cursor \<^verbatim>\<open>char const*\<close> into a buffer is an index into the byte list;
  \<^verbatim>\<open>string_view(p, n)\<close> is the \<open>n\<close> bytes starting at index \<open>p\<close>.
\<close>

definition string_view :: "string \<Rightarrow> nat \<Rightarrow> nat \<Rightarrow> string" where
  "string_view buf p n = take n (drop p buf)"

text \<open>
  Modelled from the spec: \<^verbatim>\<open>grammar::find_if_not\<close> (grammar/charset.hpp is not among the
  sources), the scan behind "run(charset) consumes the maximal prefix of matching bytes":
  advance \<open>first\<close> while it has not reached \<open>last\<close> and the byte under it is in the set.
  The range \<open>[first, last)\<close> is a valid pointer range, so "not yet at \<open>last\<close>" is
  \<open>first < last\<close>.
\<close>

function find_if_not :: "string \<Rightarrow> nat \<Rightarrow> nat \<Rightarrow> (char \<Rightarrow> bool) \<Rightarrow> nat" where
  "find_if_not buf first lst cs =
     (if first < lst
      then (if \<not> cs (buf ! first) then first
            else find_if_not buf (Suc first) lst cs)
      else first)"
  by pat_completeness auto
termination
  by (relation "measure (\<lambda>(buf, first, lst, cs). lst - first)") auto

declare find_if_not.simps [simp del]

text \<open>
  grammar/token.hpp, \<^verbatim>\<open>token<CharSet>::parse(it, end, ec, t)\<close>:
  \<^verbatim>\<open>
    ec = {};
    auto const start = it;
    static constexpr CharSet cs{};
    it = grammar::find_if_not(it, end, cs);
    t.s_ = string_view(start, it - start);
    return true;
  \<close>
  The model returns the boolean result together with the three outputs written through
  references: the error code, the advanced cursor and the matched string.
\<close>

definition token_parse ::
  "(char \<Rightarrow> bool) \<Rightarrow> string \<Rightarrow> nat \<Rightarrow> nat \<Rightarrow> bool \<times> error_code \<times> nat \<times> string" where
  "token_parse cs buf it end' =
     (let ec = success;
          start = it;
          it' = find_if_not buf it end' cs;
          s = string_view buf start (it' - start)
      in (True, ec, it', s))"

section \<open>The index table of a URL view\<close>

subsection \<open>Parts, host kinds, schemes\<close>

text \<open>
  The ordered parts of a URL (the spec's component identifiers; \<^verbatim>\<open>detail::parts_base\<close>).
\<close>

datatype part =
  id_scheme | id_user | id_pass | id_host | id_port | id_path | id_query | id_frag | id_end

definition all_parts :: "part list" where
  "all_parts = [id_scheme, id_user, id_pass, id_host, id_port, id_path, id_query, id_frag, id_end]"

fun part_index :: "part \<Rightarrow> nat" where
  "part_index id_scheme = 0"
| "part_index id_user = 1"
| "part_index id_pass = 2"
| "part_index id_host = 3"
| "part_index id_port = 4"
| "part_index id_path = 5"
| "part_index id_query = 6"
| "part_index id_frag = 7"
| "part_index id_end = 8"

text \<open>\<^verbatim>\<open>host_type\<close> (the spec's \<open>host_kind\<close>) and the well-known schemes.\<close>

datatype host_type =
  host_type_none | host_type_name | host_type_ipv4 | host_type_ipv6 | host_type_ipvfuture

datatype scheme =
  scheme_none | scheme_unknown | scheme_ftp | scheme_file | scheme_http | scheme_https
  | scheme_ws | scheme_wss | scheme_mailto | scheme_urn

definition ascii_tolower :: "char \<Rightarrow> char" where
  "ascii_tolower c =
     (let n = (of_char c :: nat) in if 65 \<le> n \<and> n \<le> 90 then char_of (n + 32) else c)"

text \<open>
  Modelled from the spec: \<^verbatim>\<open>string_to_scheme\<close> (scheme.hpp and its implementation are not
  among the sources). The spec: "look up the canonical lower-cased spelling against the
  well-known table", a fixed set including at least http, https, ws, wss, ftp, file,
  mailto, urn, plus \<open>none\<close> (absent) and \<open>unknown\<close> (present but unrecognised).
\<close>

definition string_to_scheme :: "string \<Rightarrow> scheme" where
  "string_to_scheme s =
     (let l = map ascii_tolower s in
      if l = [] then scheme_none
      else if l = ''ftp'' then scheme_ftp
      else if l = ''file'' then scheme_file
      else if l = ''http'' then scheme_http
      else if l = ''https'' then scheme_https
      else if l = ''ws'' then scheme_ws
      else if l = ''wss'' then scheme_wss
      else if l = ''mailto'' then scheme_mailto
      else if l = ''urn'' then scheme_urn
      else scheme_unknown)"

subsection \<open>Percent-encoded string views\<close>

text \<open>
  A \<^verbatim>\<open>pct_string_view\<close> is a borrowed encoded string that carries the number of bytes
  it decodes to; \<^verbatim>\<open>size()\<close> is the encoded length, \<^verbatim>\<open>decoded_size()\<close> the stored
  count.
\<close>

record pct_string_view =
  pv_s :: string
  pv_dn :: nat

definition pct_size :: "pct_string_view \<Rightarrow> nat" where
  "pct_size s = length (pv_s s)"

definition decoded_size :: "pct_string_view \<Rightarrow> nat" where
  "decoded_size s = pv_dn s"

subsection \<open>The record\<close>

text \<open>
  Modelled from the spec: the layout of \<^verbatim>\<open>detail::url_impl\<close> and its accessors
  \<^verbatim>\<open>len\<close>, \<^verbatim>\<open>offset\<close>, \<^verbatim>\<open>get\<close> and \<^verbatim>\<open>set_size\<close> (detail/url_impl.hpp is not among the
  sources). The spec's index table holds \<open>cs\<close>, the length \<open>len[9]\<close> of each part
  including its delimiters with \<open>len[end]\<close> always zero, \<open>decoded[9]\<close>, the host kind,
  the IP octets, the 16-bit port number, the scheme id, the segment and parameter counts,
  and the flag telling an authority-only view from a full URL view. "The offset of a part
  equals the sum of all prior parts' len"; a component slice is the \<open>len\<close> bytes at the
  part's offset. \<^verbatim>\<open>set_size(id, n)\<close> gives part \<open>id\<close> the length \<open>n\<close> and leaves every
  other length as it is. Lengths are \<^verbatim>\<open>std::size_t\<close> values bounded by the size of the
  buffer in memory; they are natural numbers here. A member the source writes with a
  trailing underscore (\<^verbatim>\<open>u_.nseg_\<close>) is the field with the prefix \<open>u_\<close> (\<open>u_nseg\<close>).
\<close>

record url_impl =
  u_cs :: string
  u_len :: "part \<Rightarrow> nat"
  u_decoded :: "part \<Rightarrow> nat"
  u_nseg :: nat
  u_nparam :: nat
  u_ip_addr :: "8 word list"
  u_port_number :: "16 word"
  u_host_type :: host_type
  u_scheme :: scheme
  is_authority :: bool

definition url_impl_init :: "bool \<Rightarrow> string \<Rightarrow> url_impl" where
  "url_impl_init b cs =
     \<lparr> u_cs = cs, u_len = (\<lambda>_. 0), u_decoded = (\<lambda>_. 0), u_nseg = 0, u_nparam = 0,
       u_ip_addr = replicate 16 0, u_port_number = 0, u_host_type = host_type_none,
       u_scheme = scheme_none, is_authority = b \<rparr>"

definition len :: "url_impl \<Rightarrow> part \<Rightarrow> nat" where
  "len u i = (if i = id_end then 0 else u_len u i)"

definition offset :: "url_impl \<Rightarrow> part \<Rightarrow> nat" where
  "offset u i = sum_list (map (len u) (take (part_index i) all_parts))"

definition get :: "url_impl \<Rightarrow> part \<Rightarrow> string" where
  "get u i = string_view (u_cs u) (offset u i) (len u i)"

definition set_size :: "part \<Rightarrow> nat \<Rightarrow> url_impl \<Rightarrow> url_impl" where
  "set_size i n u = u\<lparr>u_len := (u_len u)(i := n)\<rparr>"

definition set_decoded :: "part \<Rightarrow> nat \<Rightarrow> url_impl \<Rightarrow> url_impl" where
  "set_decoded i n u = u\<lparr>u_decoded := (u_decoded u)(i := n)\<rparr>"

text \<open>
  Modelled from the spec: \<^verbatim>\<open>detail::path_segments(s, nseg)\<close> (detail/path.hpp is not among
  the sources), which turns the number of elements the path rule matched into the stored
  segment count. The spec: "empty path \<open>\<Rightarrow>\<close> 0; a path equal to exactly "/" \<open>\<Rightarrow>\<close> 0
  segments"; otherwise each segment the grammar matched is counted.
\<close>

definition path_segments :: "string \<Rightarrow> nat \<Rightarrow> nat" where
  "path_segments s nseg = (if s = [] \<or> s = ''/'' then 0 else nseg)"

subsection \<open>Filling the record: detail/impl/url\_impl.ipp\<close>

text \<open>
  Each \<^verbatim>\<open>apply_*\<close> function mutates the record; the model returns the updated record.
  A function that starts with a \<^verbatim>\<open>BOOST_ASSERT\<close> returns \<open>None\<close> where the assertion
  fails.

  \<^verbatim>\<open>
  void url_impl::apply_scheme(string_view s) noexcept
  {
      scheme_ = string_to_scheme(s);
      set_size(id_scheme, s.size() + 1);
  }
  \<close>
\<close>

definition apply_scheme :: "string \<Rightarrow> url_impl \<Rightarrow> url_impl" where
  "apply_scheme s u =
     set_size id_scheme (length s + 1) (u\<lparr>u_scheme := string_to_scheme s\<rparr>)"

text \<open>
  \<^verbatim>\<open>
  void url_impl::apply_userinfo(pct_string_view const& user,
                                pct_string_view const* pass) noexcept
  {
      BOOST_ASSERT(is_authority);
      set_size(id_user, user.size());
      decoded_[id_user] = user.decoded_size();
      if(pass)
      {
          set_size(id_pass, pass->size() + 2);
          decoded_[id_pass] = pass->decoded_size();
      }
      else
      {
          // trailing '@'
          set_size(id_pass, 1 );
      }
  }
  \<close>
  The nullable pointer \<^verbatim>\<open>pass\<close> is an option.
\<close>

definition apply_userinfo ::
  "pct_string_view \<Rightarrow> pct_string_view option \<Rightarrow> url_impl \<Rightarrow> url_impl option" where
  "apply_userinfo user pass u =
     (if \<not> is_authority u then None
      else
        let u1 = set_size id_user (pct_size user) u;
            u2 = set_decoded id_user (decoded_size user) u1
        in (case pass of
              Some p \<Rightarrow>
                Some (set_decoded id_pass (decoded_size p) (set_size id_pass (pct_size p + 2) u2))
            | None \<Rightarrow> Some (set_size id_pass 1 u2)))"

text \<open>
  \<^verbatim>\<open>
  void url_impl::apply_host(host_type ht, pct_string_view s,
                            unsigned char const* addr) noexcept
  {
      BOOST_ASSERT(is_authority);
      host_type_ = ht;
      set_size(id_host, s.size());
      decoded_[id_host] = s.decoded_size();
      std::memcpy(ip_addr_, addr, sizeof(ip_addr_));
  }
  \<close>
  \<^verbatim>\<open>addr\<close> points at 16 octets; the copy takes the first 16.
\<close>

definition apply_host ::
  "host_type \<Rightarrow> pct_string_view \<Rightarrow> 8 word list \<Rightarrow> url_impl \<Rightarrow> url_impl option" where
  "apply_host ht s addr u =
     (if \<not> is_authority u then None
      else
        let u1 = u\<lparr>u_host_type := ht\<rparr>;
            u2 = set_size id_host (pct_size s) u1;
            u3 = set_decoded id_host (decoded_size s) u2
        in Some (u3\<lparr>u_ip_addr := take 16 addr\<rparr>))"

text \<open>
  \<^verbatim>\<open>
  void url_impl::apply_port(string_view s, unsigned short pn) noexcept
  {
      BOOST_ASSERT(is_authority);
      port_number_ = pn;
      set_size(id_port, 1 + s.size());
  }
  \<close>
\<close>

definition apply_port :: "string \<Rightarrow> 16 word \<Rightarrow> url_impl \<Rightarrow> url_impl option" where
  "apply_port s pn u =
     (if \<not> is_authority u then None
      else Some (set_size id_port (1 + length s) (u\<lparr>u_port_number := pn\<rparr>)))"

text \<open>
  \<^verbatim>\<open>
  void url_impl::apply_authority(authority_view const& a) noexcept
  {
      BOOST_ASSERT(! is_authority);
      set_size(id_user, a.u_.len(id_user) + (is_authority ? 0 : 2));
      set_size(id_pass, a.u_.len(id_pass));
      decoded_[id_user] = a.u_.decoded_[id_user];
      decoded_[id_pass] = a.u_.decoded_[id_pass];
      host_type_ = a.u_.host_type_;
      port_number_ = a.u_.port_number_;
      set_size(id_host, a.u_.len(id_host));
      set_size(id_port, a.u_.len(id_port));
      std::memcpy(ip_addr_, a.u_.ip_addr_, sizeof(ip_addr_));
      decoded_[id_host] = a.u_.decoded_[id_host];
  }
  \<close>
  The argument is the record \<^verbatim>\<open>a.u_\<close> of the authority view.
\<close>

definition apply_authority :: "url_impl \<Rightarrow> url_impl \<Rightarrow> url_impl option" where
  "apply_authority a u =
     (if is_authority u then None
      else
        let u1 = set_size id_user (len a id_user + (if is_authority u then 0 else 2)) u;
            u2 = set_size id_pass (len a id_pass) u1;
            u3 = set_decoded id_user (u_decoded a id_user) u2;
            u4 = set_decoded id_pass (u_decoded a id_pass) u3;
            u5 = u4\<lparr>u_host_type := u_host_type a\<rparr>;
            u6 = u5\<lparr>u_port_number := u_port_number a\<rparr>;
            u7 = set_size id_host (len a id_host) u6;
            u8 = set_size id_port (len a id_port) u7;
            u9 = u8\<lparr>u_ip_addr := u_ip_addr a\<rparr>
        in Some (set_decoded id_host (u_decoded a id_host) u9))"

text \<open>
  \<^verbatim>\<open>
  void url_impl::apply_path(pct_string_view s, std::size_t nseg) noexcept
  {
      set_size(id_path, s.size());
      decoded_[id_path] = s.decoded_size();
      nseg_ = detail::path_segments(s, nseg);
  }
  \<close>
\<close>

definition apply_path :: "pct_string_view \<Rightarrow> nat \<Rightarrow> url_impl \<Rightarrow> url_impl" where
  "apply_path s nseg u =
     (let u1 = set_size id_path (pct_size s) u;
          u2 = set_decoded id_path (decoded_size s) u1
      in u2\<lparr>u_nseg := path_segments (pv_s s) nseg\<rparr>)"

text \<open>
  \<^verbatim>\<open>
  void url_impl::apply_query(pct_string_view s, std::size_t n) noexcept
  {
      nparam_ = n;
      set_size(id_query, 1 + s.size());
      decoded_[id_query] = s.decoded_size();
  }
  \<close>
\<close>

definition apply_query :: "pct_string_view \<Rightarrow> nat \<Rightarrow> url_impl \<Rightarrow> url_impl" where
  "apply_query s n u =
     (let u1 = u\<lparr>u_nparam := n\<rparr>;
          u2 = set_size id_query (1 + pct_size s) u1
      in set_decoded id_query (decoded_size s) u2)"

text \<open>
  \<^verbatim>\<open>
  void url_impl::apply_frag(pct_string_view s) noexcept
  {
      set_size(id_frag, s.size() + 1);
      decoded_[id_frag] = s.decoded_size();
  }
  \<close>
\<close>

definition apply_frag :: "pct_string_view \<Rightarrow> url_impl \<Rightarrow> url_impl" where
  "apply_frag s u =
     set_decoded id_frag (decoded_size s) (set_size id_frag (pct_size s + 1) u)"

subsection \<open>Observers of url\_view\_base\<close>

text \<open>
  A view holds the record \<^verbatim>\<open>u_\<close>; the observers are functions of it
  (url\_view\_base.hpp):
  \<^verbatim>\<open>
  std::size_t size() const noexcept { return u_.offset(id_end); }
  char const* data() const noexcept { return u_.cs_; }
  string_view string() const noexcept { return string_view(data(), size()); }
  bool has_authority() const noexcept { return u_.len(id_user) > 0; }
  urls::host_type host_type() const noexcept { return u_.host_type_; }
  \<close>
\<close>

definition url_size :: "url_impl \<Rightarrow> nat" where
  "url_size u = offset u id_end"

definition url_string :: "url_impl \<Rightarrow> string" where
  "url_string u = string_view (u_cs u) 0 (url_size u)"

definition has_authority :: "url_impl \<Rightarrow> bool" where
  "has_authority u = (len u id_user > 0)"

definition host_type :: "url_impl \<Rightarrow> host_type" where
  "host_type u = u_host_type u"

text \<open>
  Modelled from the spec: \<^verbatim>\<open>url_view_base::has_password\<close>, \<^verbatim>\<open>has_port\<close>,
  \<^verbatim>\<open>has_query\<close>, \<^verbatim>\<open>has_fragment\<close>, \<^verbatim>\<open>port\<close> and \<^verbatim>\<open>port_number\<close> are declared in
  url\_view\_base.hpp and defined in a file that is not among the sources. The spec:
  \<open>has_password \<Leftrightarrow> len[pass] \<ge> 2\<close>; port: "length = 0 \<open>\<Leftrightarrow>\<close> no port";
  \<open>has_query \<Leftrightarrow> len[query] \<ge> 1\<close>; \<open>has_fragment \<Leftrightarrow> len[fragment] \<ge> 1\<close>;
  \<open>port()\<close> returns the literal digits (the slice without its leading colon) and
  \<open>port_number()\<close> the stored number.
\<close>

definition has_password :: "url_impl \<Rightarrow> bool" where
  "has_password u = (len u id_pass \<ge> 2)"

definition has_port :: "url_impl \<Rightarrow> bool" where
  "has_port u = (len u id_port > 0)"

definition has_query :: "url_impl \<Rightarrow> bool" where
  "has_query u = (len u id_query \<ge> 1)"

definition has_fragment :: "url_impl \<Rightarrow> bool" where
  "has_fragment u = (len u id_frag \<ge> 1)"

definition port :: "url_impl \<Rightarrow> string" where
  "port u = (let s = get u id_port in if s = [] then s else drop 1 s)"

definition port_number :: "url_impl \<Rightarrow> 16 word" where
  "port_number u = u_port_number u"

subsection \<open>Sequences of calls\<close>

text \<open>
  Modelled from the spec: how a record comes to hold its values (the parsers that fill
  it are not among the sources). The spec: a view "is created by a successful top-level
  parse", "each top-level parser fills the index table as it consumes input", and before
  that the table is "zero-initialised". The record is written only through the functions
  of url\_impl.ipp: a call is one of them with its arguments; a sequence of calls runs
  from left to right and stops at the first failed assertion.
\<close>

datatype url_call =
  call_scheme string
| call_userinfo pct_string_view "pct_string_view option"
| call_host host_type pct_string_view "8 word list"
| call_port string "16 word"
| call_authority url_impl
| call_path pct_string_view nat
| call_query pct_string_view nat
| call_frag pct_string_view

fun apply_call :: "url_call \<Rightarrow> url_impl \<Rightarrow> url_impl option" where
  "apply_call (call_scheme s) u = Some (apply_scheme s u)"
| "apply_call (call_userinfo user pass) u = apply_userinfo user pass u"
| "apply_call (call_host ht s addr) u = apply_host ht s addr u"
| "apply_call (call_port s pn) u = apply_port s pn u"
| "apply_call (call_authority a) u = apply_authority a u"
| "apply_call (call_path s nseg) u = Some (apply_path s nseg u)"
| "apply_call (call_query s n) u = Some (apply_query s n u)"
| "apply_call (call_frag s) u = Some (apply_frag s u)"

fun run_calls :: "url_call list \<Rightarrow> url_impl \<Rightarrow> url_impl option" where
  "run_calls [] u = Some u"
| "run_calls (c # cs) u =
     (case apply_call c u of None \<Rightarrow> None | Some u' \<Rightarrow> run_calls cs u')"

subsection \<open>From a match of the grammar to a view\<close>

text \<open>
  Modelled from the spec: the top-level rules (\<^verbatim>\<open>parse_uri\<close>, \<^verbatim>\<open>parse_uri_reference\<close>,
  \<^verbatim>\<open>parse_relative_ref\<close>, \<^verbatim>\<open>parse_absolute_uri\<close>) and the authority rule, which are not
  among the sources. The spec:
  \<^item> \<open>URI = scheme ":" hier-part [ "?" query ] [ "#" fragment ]\<close>,
    \<open>relative-ref = relative-part [ "?" query ] [ "#" fragment ]\<close>, where the hier-part
    or relative-part is \<open>"//" authority path-abempty\<close> or a path alone;
  \<^item> authority is \<open>[userinfo "@"] host [":" port]\<close>, userinfo is a user with an optional
    \<open>":"\<close> password, and "the presence of the trailing \<open>@\<close> is detected one level up";
  \<^item> "each top-level parser fills the index table as it consumes input", and it "MUST
    consume the entire input".
  A match records what each sub-rule recognised: the matched text and the values the
  rule computed beside it (host kind and octets, port number, segment and parameter
  counts; rfc/query\_part\_bnf.hpp has \<^verbatim>\<open>has_query\<close>, \<^verbatim>\<open>query\<close>, \<^verbatim>\<open>query_count\<close>).
  The input of a match is the text of its pieces with the delimiters of the grammar
  between them, and the view of a match is the zero-initialised record over that input
  after the \<^verbatim>\<open>apply_*\<close> call for every piece that is present.
\<close>

record authority_match =
  am_userinfo :: "(pct_string_view \<times> pct_string_view option) option"
  am_host_type :: host_type
  am_host :: pct_string_view
  am_addr :: "8 word list"
  am_port :: "(string \<times> 16 word) option"

record url_match =
  um_scheme :: "string option"
  um_authority :: "authority_match option"
  um_path :: pct_string_view
  um_nseg :: nat
  um_query :: "(pct_string_view \<times> nat) option"
  um_frag :: "pct_string_view option"

definition userinfo_text :: "(pct_string_view \<times> pct_string_view option) option \<Rightarrow> string" where
  "userinfo_text ui =
     (case ui of
        None \<Rightarrow> []
      | Some (user, None) \<Rightarrow> pv_s user @ ''@''
      | Some (user, Some pass) \<Rightarrow> pv_s user @ '':'' @ pv_s pass @ ''@'')"

definition port_text :: "(string \<times> 16 word) option \<Rightarrow> string" where
  "port_text p = (case p of None \<Rightarrow> [] | Some (s, pn) \<Rightarrow> '':'' @ s)"

definition authority_text :: "authority_match \<Rightarrow> string" where
  "authority_text m = userinfo_text (am_userinfo m) @ pv_s (am_host m) @ port_text (am_port m)"

definition url_text :: "url_match \<Rightarrow> string" where
  "url_text m =
     (case um_scheme m of None \<Rightarrow> [] | Some s \<Rightarrow> s @ '':'')
     @ (case um_authority m of None \<Rightarrow> [] | Some a \<Rightarrow> ''//'' @ authority_text a)
     @ pv_s (um_path m)
     @ (case um_query m of None \<Rightarrow> [] | Some (q, n) \<Rightarrow> ''?'' @ pv_s q)
     @ (case um_frag m of None \<Rightarrow> [] | Some f \<Rightarrow> ''#'' @ pv_s f)"

definition authority_calls :: "authority_match \<Rightarrow> url_call list" where
  "authority_calls m =
     (case am_userinfo m of None \<Rightarrow> [] | Some (user, pass) \<Rightarrow> [call_userinfo user pass])
     @ [call_host (am_host_type m) (am_host m) (am_addr m)]
     @ (case am_port m of None \<Rightarrow> [] | Some (s, pn) \<Rightarrow> [call_port s pn])"

definition authority_view_of :: "authority_match \<Rightarrow> url_impl option" where
  "authority_view_of m = run_calls (authority_calls m) (url_impl_init True (authority_text m))"

definition url_calls :: "url_match \<Rightarrow> url_call list option" where
  "url_calls m =
     (case (case um_authority m of
              None \<Rightarrow> Some []
            | Some am \<Rightarrow> (case authority_view_of am of
                            None \<Rightarrow> None
                          | Some a \<Rightarrow> Some [call_authority a])) of
        None \<Rightarrow> None
      | Some auth \<Rightarrow>
          Some ((case um_scheme m of None \<Rightarrow> [] | Some s \<Rightarrow> [call_scheme s])
                @ auth
                @ [call_path (um_path m) (um_nseg m)]
                @ (case um_query m of None \<Rightarrow> [] | Some (q, n) \<Rightarrow> [call_query q n])
                @ (case um_frag m of None \<Rightarrow> [] | Some f \<Rightarrow> [call_frag f])))"

definition url_view_of :: "url_match \<Rightarrow> url_impl option" where
  "url_view_of m =
     (case url_calls m of
        None \<Rightarrow> None
      | Some cs \<Rightarrow> run_calls cs (url_impl_init False (url_text m)))"

definition url_parts :: "part list" where
  "url_parts = [id_scheme, id_user, id_pass, id_host, id_port, id_path, id_query, id_frag]"

text \<open>The invariant behind the coherence of host and authority in a full URL view.\<close>

definition authority_coherent :: "url_impl \<Rightarrow> bool" where
  "authority_coherent u \<longleftrightarrow>
     \<not> is_authority u \<and>
     (len u id_user > 0 \<or>
      (len u id_user = 0 \<and> len u id_pass = 0 \<and> len u id_host = 0 \<and> len u id_port = 0
        \<and> u_host_type u = host_type_none))"

text \<open>
  The slice each part of a match occupies in the input, delimiters included: the scheme
  with its trailing \<open>:\<close>; the user with the leading \<open>//\<close> of the authority; the password
  with its leading \<open>:\<close> and the \<open>@\<close> that ends the userinfo (or that \<open>@\<close> alone); the
  host; the port with its leading \<open>:\<close>; the path; the query with its leading \<open>?\<close>; the
  fragment with its leading \<open>#\<close>.
\<close>

definition part_slices :: "url_match \<Rightarrow> string list" where
  "part_slices m =
     [ (case um_scheme m of None \<Rightarrow> [] | Some s \<Rightarrow> s @ '':''),
       (case um_authority m of
          None \<Rightarrow> []
        | Some a \<Rightarrow> ''//'' @ (case am_userinfo a of None \<Rightarrow> [] | Some (user, pass) \<Rightarrow> pv_s user)),
       (case um_authority m of
          None \<Rightarrow> []
        | Some a \<Rightarrow> (case am_userinfo a of
                       None \<Rightarrow> []
                     | Some (user, None) \<Rightarrow> ''@''
                     | Some (user, Some pass) \<Rightarrow> '':'' @ pv_s pass @ ''@'')),
       (case um_authority m of None \<Rightarrow> [] | Some a \<Rightarrow> pv_s (am_host a)),
       (case um_authority m of None \<Rightarrow> [] | Some a \<Rightarrow> port_text (am_port a)),
       pv_s (um_path m),
       (case um_query m of None \<Rightarrow> [] | Some (q, n) \<Rightarrow> ''?'' @ pv_s q),
       (case um_frag m of None \<Rightarrow> [] | Some f \<Rightarrow> ''#'' @ pv_s f) ]"

text \<open>Consecutive slices of a buffer, from a start position and a list of lengths.\<close>

fun slices :: "string \<Rightarrow> nat \<Rightarrow> nat list \<Rightarrow> string list" where
  "slices buf p [] = []"
| "slices buf p (n # ns) = string_view buf p n # slices buf (p + n) ns"

section \<open>Path rules and the segment count\<close>

subsection \<open>Character classes of RFC 3986\<close>

text \<open>
  Modelled from the spec: the character sets \<^verbatim>\<open>pchars\<close>, \<^verbatim>\<open>unreserved_chars\<close> and the
  digit, alpha and hex-digit sets (rfc/pchars.hpp and the grammar's sets are not among
  the sources). The spec: segment is \<open>pct_encoded(unreserved \<union> sub-delims \<union> ":" \<union> "@")\<close>;
  unreserved is \<open>ALPHA / DIGIT / "-" / "." / "_" / "~"\<close> of RFC 3986.
\<close>

definition digit_chars :: "char \<Rightarrow> bool" where
  "digit_chars c = (let n = (of_char c :: nat) in 48 \<le> n \<and> n \<le> 57)"

definition alpha_chars :: "char \<Rightarrow> bool" where
  "alpha_chars c = (let n = (of_char c :: nat) in (65 \<le> n \<and> n \<le> 90) \<or> (97 \<le> n \<and> n \<le> 122))"

definition hexdig_chars :: "char \<Rightarrow> bool" where
  "hexdig_chars c =
     (let n = (of_char c :: nat) in
      (48 \<le> n \<and> n \<le> 57) \<or> (65 \<le> n \<and> n \<le> 70) \<or> (97 \<le> n \<and> n \<le> 102))"

definition unreserved_chars :: "char \<Rightarrow> bool" where
  "unreserved_chars c = (alpha_chars c \<or> digit_chars c \<or> lut_chars ''-._~'' c)"

definition pchars :: "char \<Rightarrow> bool" where
  "pchars c = (unreserved_chars c \<or> sub_delim_chars c \<or> c = CHR '':'' \<or> c = CHR ''@'')"

subsection \<open>Rule combinators\<close>

text \<open>
  Modelled from the spec: the combinators \<^verbatim>\<open>grammar::char_rule\<close>, \<^verbatim>\<open>sequence_rule\<close>,
  \<^verbatim>\<open>range_rule\<close> and \<^verbatim>\<open>pct_encoded_rule\<close> and the rule \<^verbatim>\<open>detail::segment_rule\<close> (their
  headers are not among the sources). The spec's contract: a rule, given the cursor,
  "either advances the cursor past the consumed bytes and fills the output, or reports a
  failure"; "no rule consumes input on failure".
  \<^item> literal(b) "succeeds iff the next byte equals b";
  \<^item> seq(r1, r2) "succeeds iff every rule succeeds in order";
  \<^item> range(element) "repeats element" and "reports the element count";
  \<^item> pct\_encoded(charset) "reads a run of characters each of which is either a member of
    charset, or a \<open>%HH\<close> triplet with two hex digits; reports encoded length and decoded
    length; fails on \<open>%\<close> not followed by two hex digits".
  A rule is a function of the remaining input \<open>[it, end)\<close>; it returns its value and the
  input left after the bytes it consumed, or an error.
\<close>

type_synonym 'a rule = "string \<Rightarrow> error_code + ('a \<times> string)"

definition char_rule :: "char \<Rightarrow> char rule" where
  "char_rule ch inp =
     (case inp of
        [] \<Rightarrow> Inl error_mismatch
      | x # xs \<Rightarrow> if x = ch then Inr (ch, xs) else Inl error_mismatch)"

definition sequence_rule :: "'a rule \<Rightarrow> 'b rule \<Rightarrow> ('a \<times> 'b) rule" where
  "sequence_rule r1 r2 inp =
     (case r1 inp of
        Inl e \<Rightarrow> Inl e
      | Inr (a, rest1) \<Rightarrow>
          (case r2 rest1 of
             Inl e \<Rightarrow> Inl e
           | Inr (b, rest2) \<Rightarrow> Inr ((a, b), rest2)))"

fun pct_encoded_run :: "(char \<Rightarrow> bool) \<Rightarrow> string \<Rightarrow> error_code + (string \<times> nat \<times> string)" where
  "pct_encoded_run cs [] = Inr ([], 0, [])"
| "pct_encoded_run cs (c # xs) =
     (if c = CHR ''%'' then
        (case xs of
           h1 # h2 # ys \<Rightarrow>
             if hexdig_chars h1 \<and> hexdig_chars h2
             then (case pct_encoded_run cs ys of
                     Inl e \<Rightarrow> Inl e
                   | Inr (m, dn, rest) \<Rightarrow> Inr (c # h1 # h2 # m, Suc dn, rest))
             else Inl error_invalid_percent
         | _ \<Rightarrow> Inl error_invalid_percent)
      else if cs c then
        (case pct_encoded_run cs xs of
           Inl e \<Rightarrow> Inl e
         | Inr (m, dn, rest) \<Rightarrow> Inr (c # m, Suc dn, rest))
      else Inr ([], 0, c # xs))"

definition pct_encoded_rule :: "(char \<Rightarrow> bool) \<Rightarrow> pct_string_view rule" where
  "pct_encoded_rule cs inp =
     (case pct_encoded_run cs inp of
        Inl e \<Rightarrow> Inl e
      | Inr (m, dn, rest) \<Rightarrow> Inr (\<lparr>pv_s = m, pv_dn = dn\<rparr>, rest))"

definition segment_rule :: "pct_string_view rule" where
  "segment_rule = pct_encoded_rule pchars"

text \<open>
  The repetition: match the element again and again, counting, and stop with the cursor
  where the first element that does not match began. An element that matched without
  consuming a byte would repeat for ever; the repetition stops there too.
\<close>

function range_loop :: "'a rule \<Rightarrow> nat \<Rightarrow> string \<Rightarrow> nat \<times> string" where
  "range_loop r n inp =
     (case r inp of
        Inl e \<Rightarrow> (n, inp)
      | Inr (v, rest) \<Rightarrow>
          if length rest < length inp then range_loop r (Suc n) rest else (n, inp))"
  by pat_completeness auto
termination
  by (relation "measure (\<lambda>(r, n, inp). length inp)") auto

declare range_loop.simps [simp del]

text \<open>
  Modelled from the spec: the number of bytes a string decodes to ("the count of bytes
  the part would produce after percent-decoding"): a triplet counts once.
\<close>

fun decoded_count :: "string \<Rightarrow> nat" where
  "decoded_count [] = 0"
| "decoded_count (c # xs) =
     (if c = CHR ''%'' then Suc (decoded_count (drop 2 xs)) else Suc (decoded_count xs))"

definition make_pct_string_view :: "string \<Rightarrow> pct_string_view" where
  "make_pct_string_view s = \<lparr>pv_s = s, pv_dn = decoded_count s\<rparr>"

text \<open>
  The value of a range is the matched text and the number of elements.
\<close>

definition range_rule :: "'a rule \<Rightarrow> (pct_string_view \<times> nat) rule" where
  "range_rule r inp =
     (case range_loop r 0 inp of
        (n, rest) \<Rightarrow> Inr ((make_pct_string_view (take (length inp - length rest) inp), n), rest))"

text \<open>
  rfc/path\_rules.hpp:
  \<^verbatim>\<open>
  // path-abempty  = *( "/" segment )
  constexpr auto path_abempty_rule =
      grammar::range_rule(
          grammar::sequence_rule(
              grammar::char_rule('/'),
              detail::segment_rule));
  \<close>
\<close>

definition path_abempty_rule :: "(pct_string_view \<times> nat) rule" where
  "path_abempty_rule = range_rule (sequence_rule (char_rule (CHR ''/'')) segment_rule)"

text \<open>
  Modelled from the spec: the overload \<^verbatim>\<open>grammar::range_rule(first, next, N)\<close>, the
  combinator \<^verbatim>\<open>grammar::not_empty_rule\<close> and the rules \<^verbatim>\<open>detail::segment_nz_rule\<close>,
  \<^verbatim>\<open>detail::segment_nz_nc_rule\<close>, \<^verbatim>\<open>detail::slash_segment_rule\<close> and
  \<^verbatim>\<open>detail::segment_ns_rule\<close> (their headers are not among the sources). The spec:
  range "repeats element separated by separator; reports the element count", with a
  minimum number of elements; non\_empty(rule) "wraps a rule so zero-length success
  becomes failure". In the overload the first element is matched by \<open>first\<close> and every
  further one by \<open>next\<close>; fewer than \<open>N\<close> elements is a mismatch. The grammar of the
  doc comments of rfc/path\_rules.hpp names the elements: \<open>segment-nz = 1*pchar\<close>,
  \<open>segment-nz-nc\<close> is a non-empty segment without \<open>:\<close>, and \<open>"/" segment\<close> is what
  follows the first element. In \<open>path-absolute = "/" [ segment-nz *( "/" segment ) ]\<close>
  the segment after the first \<open>/\<close> is either non-empty or the end of the path, so
  \<^verbatim>\<open>segment_ns_rule\<close> is a segment that, when empty, is not followed by \<open>/\<close>.
\<close>

definition not_empty_rule :: "'a rule \<Rightarrow> 'a rule" where
  "not_empty_rule r inp =
     (case r inp of
        Inl e \<Rightarrow> Inl e
      | Inr (v, rest) \<Rightarrow> if length rest = length inp then Inl error_mismatch else Inr (v, rest))"

definition nocolon_pchars :: "char \<Rightarrow> bool" where
  "nocolon_pchars c = (pchars c \<and> c \<noteq> CHR '':'')"

definition segment_nz_rule :: "pct_string_view rule" where
  "segment_nz_rule = not_empty_rule (pct_encoded_rule pchars)"

definition segment_nz_nc_rule :: "pct_string_view rule" where
  "segment_nz_nc_rule = not_empty_rule (pct_encoded_rule nocolon_pchars)"

definition slash_segment_rule :: "(char \<times> pct_string_view) rule" where
  "slash_segment_rule = sequence_rule (char_rule (CHR ''/'')) segment_rule"

definition segment_ns_rule :: "pct_string_view rule" where
  "segment_ns_rule inp =
     (case pct_encoded_rule pchars inp of
        Inl e \<Rightarrow> Inl e
      | Inr (s, rest) \<Rightarrow>
          if pv_s s = [] \<and> rest \<noteq> [] \<and> hd rest = CHR ''/'' then Inl error_mismatch
          else Inr (s, rest))"

definition range_rule2 :: "'a rule \<Rightarrow> 'b rule \<Rightarrow> nat \<Rightarrow> (pct_string_view \<times> nat) rule" where
  "range_rule2 r0 r1 N inp =
     (case (case r0 inp of
              Inl e \<Rightarrow> (0, inp)
            | Inr (v, rest0) \<Rightarrow> range_loop r1 1 rest0) of
        (n, rest) \<Rightarrow>
          if n < N then Inl error_mismatch
          else Inr ((make_pct_string_view (take (length inp - length rest) inp), n), rest))"

text \<open>
  rfc/path\_rules.hpp:
  \<^verbatim>\<open>
  // path-absolute = "/" [ segment-nz *( "/" segment ) ]
  constexpr auto path_absolute_rule =
      grammar::range_rule(
          grammar::sequence_rule(
              grammar::char_rule('/'),
              detail::segment_ns_rule),
          detail::slash_segment_rule,
          1);

  // path-noscheme = segment-nz-nc *( "/" segment )
  constexpr auto path_noscheme_rule =
      grammar::range_rule(
          detail::segment_nz_nc_rule,
          detail::slash_segment_rule,
          1);

  // path-rootless = segment-nz *( "/" segment )
  constexpr auto path_rootless_rule =
      grammar::range_rule(
          detail::segment_nz_rule,
          detail::slash_segment_rule,
          1);
  \<close>
\<close>

definition path_absolute_rule :: "(pct_string_view \<times> nat) rule" where
  "path_absolute_rule =
     range_rule2 (sequence_rule (char_rule (CHR ''/'')) segment_ns_rule) slash_segment_rule 1"

definition path_noscheme_rule :: "(pct_string_view \<times> nat) rule" where
  "path_noscheme_rule = range_rule2 segment_nz_nc_rule slash_segment_rule 1"

definition path_rootless_rule :: "(pct_string_view \<times> nat) rule" where
  "path_rootless_rule = range_rule2 segment_nz_rule slash_segment_rule 1"

text \<open>
  The number of segments a path text has in the grammar: one for each \<open>/\<close>, and one
  more for the first segment of a non-empty path that does not start with \<open>/\<close>. The
  four path rules are shown below to report this number.
\<close>

definition grammar_segment_count :: "string \<Rightarrow> nat" where
  "grammar_segment_count p =
     count_list p (CHR ''/'') + (if p \<noteq> [] \<and> hd p \<noteq> CHR ''/'' then 1 else 0)"

text \<open>
  The path rule that matched a path and its count: the top-level rules choose among the
  four by context (the empty path is what \<open>path_abempty_rule\<close> matches when no \<open>/\<close>
  follows).
\<close>

definition path_rule_matched :: "string \<Rightarrow> pct_string_view \<times> nat \<Rightarrow> string \<Rightarrow> bool" where
  "path_rule_matched inp pm rest =
     (path_abempty_rule inp = Inr (pm, rest)
      \<or> path_absolute_rule inp = Inr (pm, rest)
      \<or> path_noscheme_rule inp = Inr (pm, rest)
      \<or> path_rootless_rule inp = Inr (pm, rest))"

subsection \<open>The segments of a path\<close>

text \<open>
  Modelled from the spec: \<^verbatim>\<open>encoded_path\<close> (the slice of the path part; declared in
  url\_view\_base.hpp) and the elements a segments view yields (segments\_view.hpp is not
  among the sources). The spec's segment iterator: "an empty path yields an empty
  sequence; a path equal to "/" yields an empty sequence; a path beginning with / does
  NOT emit a leading empty segment; a path ending in / DOES emit a trailing empty
  segment iff the path length exceeds 1"; a segment is "a path component between /
  delimiters". The decoded and the encoded view share the boundaries; the elements here
  are the encoded slices. A view is built from the encoded path and the segment count.
\<close>

record segments_view =
  sv_s :: string
  sv_n :: nat

definition encoded_path :: "url_impl \<Rightarrow> string" where
  "encoded_path u = get u id_path"

fun split_on :: "char \<Rightarrow> string \<Rightarrow> string list" where
  "split_on ch [] = [[]]"
| "split_on ch (x # xs) =
     (if x = ch then [] # split_on ch xs
      else (case split_on ch xs of
              [] \<Rightarrow> [[x]]
            | p # ps \<Rightarrow> (x # p) # ps))"

fun join_with :: "char \<Rightarrow> string list \<Rightarrow> string" where
  "join_with ch [] = []"
| "join_with ch [p] = p"
| "join_with ch (p # q # ps) = p @ ch # join_with ch (q # ps)"

definition segments_elems :: "segments_view \<Rightarrow> string list" where
  "segments_elems v =
     (let p = sv_s v in
      if p = [] \<or> p = ''/'' then []
      else split_on (CHR ''/'') (if hd p = CHR ''/'' then tl p else p))"

text \<open>
  url\_view\_base.hpp:
  \<^verbatim>\<open>segments_view segments() const noexcept { return {encoded_path(), u_.nseg_}; }\<close>
\<close>

definition segments :: "url_impl \<Rightarrow> segments_view" where
  "segments u = \<lparr>sv_s = encoded_path u, sv_n = u_nseg u\<rparr>"

text \<open>
  The segments as the spec's data-model invariant words them: the maximal runs between
  \<open>/\<close> boundaries, where neither a leading nor a trailing \<open>/\<close> introduces an empty
  segment (and none for the empty path and for \<open>/\<close>).
\<close>

definition claimed_segments :: "string \<Rightarrow> string list" where
  "claimed_segments p =
     (if p = [] \<or> p = ''/'' then []
      else
        let runs = split_on (CHR ''/'') p;
            runs1 = (if hd p = CHR ''/'' then tl runs else runs)
        in if last p = CHR ''/'' then butlast runs1 else runs1)"

section \<open>The port\<close>

text \<open>
  The token rule of grammar/token.hpp as a rule over the remaining input: the cursor
  starts at index 0 of the remaining bytes and the end is their length.
\<close>

definition token_rule :: "(char \<Rightarrow> bool) \<Rightarrow> string rule" where
  "token_rule cs inp =
     (case token_parse cs inp 0 (length inp) of
        (ok, ec, it', s) \<Rightarrow> if ok then Inr (s, drop it' inp) else Inl ec)"

text \<open>
  Modelled from the spec: the port rule (rfc/port\_rule.hpp and its implementation are not
  among the sources). The spec: "port = run(DIGIT). Numeric value is accumulated into
  \<open>port_number\<close> with saturation: a sequence exceeding 65535 results in
  \<open>port_number = 0\<close> while still recording the raw string." The accumulation goes
  through the digits from the left, \<open>n \<leftarrow> 10 n + digit\<close>, and gives up as soon as the
  number no longer fits in 16 bits.
\<close>

definition digit_value :: "char \<Rightarrow> nat" where
  "digit_value c = of_char c - 48"

fun port_accumulate :: "string \<Rightarrow> nat \<Rightarrow> nat option" where
  "port_accumulate [] n = Some n"
| "port_accumulate (d # ds) n =
     (let n' = 10 * n + digit_value d in
      if n' > 65535 then None else port_accumulate ds n')"

definition port_rule_number :: "string \<Rightarrow> 16 word" where
  "port_rule_number ds = (case port_accumulate ds 0 of None \<Rightarrow> 0 | Some n \<Rightarrow> of_nat n)"

definition port_rule :: "(string \<times> 16 word) rule" where
  "port_rule inp =
     (case token_rule digit_chars inp of
        Inl e \<Rightarrow> Inl e
      | Inr (s, rest) \<Rightarrow> Inr ((s, port_rule_number s), rest))"

text \<open>The number a sequence of decimal digits denotes.\<close>

definition decimal_value :: "string \<Rightarrow> nat" where
  "decimal_value ds = foldl (\<lambda>n d. 10 * n + digit_value d) 0 ds"

section \<open>Query parameters\<close>

text \<open>
  Modelled from the spec: the query rule behind rfc/query\_part\_bnf.hpp (the header
  declares \<^verbatim>\<open>has_query\<close>, \<^verbatim>\<open>query\<close>, \<^verbatim>\<open>query_count\<close> and the \<^verbatim>\<open>parse\<close> function; the
  body is not among the sources). The spec: \<open>query-part = [ "?" query ]\<close>, query is
  \<open>pct_encoded(unreserved \<union> sub-delims \<union> ":" \<union> "@" \<union> "/" \<union> "?")\<close>, "parameter
  splitting is performed in a second pass over the accepted query text to compute
  \<open>param_count\<close>", "a present query has \<open>\<ge> 1\<close> parameter (the empty string is one
  parameter with empty key and no value); subsequent parameters are introduced by \<open>&\<close>".
\<close>

definition query_chars :: "char \<Rightarrow> bool" where
  "query_chars c = (pchars c \<or> c = CHR ''/'' \<or> c = CHR ''?'')"

definition query_part_rule :: "((pct_string_view \<times> nat) option) rule" where
  "query_part_rule inp =
     (case inp of
        [] \<Rightarrow> Inr (None, inp)
      | c # xs \<Rightarrow>
          if c = CHR ''?'' then
            (case pct_encoded_rule query_chars xs of
               Inl e \<Rightarrow> Inl e
             | Inr (q, rest) \<Rightarrow> Inr (Some (q, Suc (count_list (pv_s q) (CHR ''&''))), rest))
          else Inr (None, inp))"

text \<open>
  Modelled from the spec: the parameter view (params\_encoded\_base.hpp declares
  \<^verbatim>\<open>empty\<close>, \<^verbatim>\<open>size\<close> and the iterators; their bodies and \<^verbatim>\<open>encoded_query\<close> are not
  among the sources). The header documents \<^verbatim>\<open>empty\<close> with the effect
  \<^verbatim>\<open>return ! this->url().has_query();\<close>. The spec: the iterator runs "over the encoded
  query (excluding the leading ?)", a parameter is \<open>key [ "=" value ]\<close>, "splits on &",
  and carries \<open>key\<close>, \<open>value\<close> and \<open>has_value\<close>; "iterating params() yields exactly
  \<open>param_count\<close> elements", the count the view reports as its size.
\<close>

definition encoded_query :: "url_impl \<Rightarrow> string" where
  "encoded_query u = drop 1 (get u id_query)"

record param_view =
  p_key :: string
  p_value :: string
  p_has_value :: bool

definition param_of :: "string \<Rightarrow> param_view" where
  "param_of s =
     \<lparr> p_key = takeWhile (\<lambda>c. c \<noteq> CHR ''='') s,
       p_value = drop 1 (dropWhile (\<lambda>c. c \<noteq> CHR ''='') s),
       p_has_value = (CHR ''='' \<in> set s) \<rparr>"

definition param_text :: "param_view \<Rightarrow> string" where
  "param_text p = p_key p @ (if p_has_value p then CHR ''='' # p_value p else [])"

definition params_empty :: "url_impl \<Rightarrow> bool" where
  "params_empty u = (\<not> has_query u)"

definition params_size :: "url_impl \<Rightarrow> nat" where
  "params_size u = u_nparam u"

definition params_elems :: "url_impl \<Rightarrow> param_view list" where
  "params_elems u =
     (if has_query u then map param_of (split_on (CHR ''&'') (encoded_query u)) else [])"

section \<open>Comparison\<close>

text \<open>
  Modelled from the spec: \<^verbatim>\<open>url_view_base::compare\<close> (declared in url\_view\_base.hpp with
  the contract "-1 if \<open>*this < other\<close>, 0 if \<open>this == other\<close>, and 1 if \<open>this > other\<close>";
  its body is not among the sources). The spec: comparison "follows RFC 3986 6.2.2
  Syntax-Based Normalization": "compare scheme case-insensitively; compare each
  subsequent component as if percent-triplets were uppercased and unreserved-character
  escapes were decoded, but without touching the underlying buffer; return -1/0/1".
  The components are the parts of the index table in their order; two components are
  compared byte by byte, the first difference or the shorter one deciding.
\<close>

definition ascii_toupper :: "char \<Rightarrow> char" where
  "ascii_toupper c =
     (let n = (of_char c :: nat) in if 97 \<le> n \<and> n \<le> 122 then char_of (n - 32) else c)"

definition hex_value :: "char \<Rightarrow> nat" where
  "hex_value c =
     (let n = (of_char c :: nat) in
      if 48 \<le> n \<and> n \<le> 57 then n - 48
      else if 65 \<le> n \<and> n \<le> 70 then n - 55
      else n - 87)"

fun normalize_encoded :: "string \<Rightarrow> string" where
  "normalize_encoded [] = []"
| "normalize_encoded (c # xs) =
     (if c = CHR ''%'' then
        (case xs of
           h1 # h2 # ys \<Rightarrow>
             if hexdig_chars h1 \<and> hexdig_chars h2 then
               (let b = (char_of (16 * hex_value h1 + hex_value h2) :: char) in
                if unreserved_chars b then b # normalize_encoded ys
                else c # ascii_toupper h1 # ascii_toupper h2 # normalize_encoded ys)
             else c # normalize_encoded xs
         | _ \<Rightarrow> c # normalize_encoded xs)
      else c # normalize_encoded xs)"

definition normal_components :: "url_impl \<Rightarrow> string list" where
  "normal_components u =
     map ascii_tolower (get u id_scheme)
     # map (\<lambda>i. normalize_encoded (get u i))
         [id_user, id_pass, id_host, id_port, id_path, id_query, id_frag]"

fun compare_bytes :: "string \<Rightarrow> string \<Rightarrow> int" where
  "compare_bytes [] [] = 0"
| "compare_bytes [] (y # ys) = - 1"
| "compare_bytes (x # xs) [] = 1"
| "compare_bytes (x # xs) (y # ys) =
     (if (of_char x :: nat) < of_char y then - 1
      else if (of_char y :: nat) < of_char x then 1
      else compare_bytes xs ys)"

fun compare_components :: "string list \<Rightarrow> string list \<Rightarrow> int" where
  "compare_components (a # as) (b # bs) =
     (let comp = compare_bytes a b in
      if comp \<noteq> 0 then comp else compare_components as bs)"
| "compare_components _ _ = 0"

definition compare :: "url_impl \<Rightarrow> url_impl \<Rightarrow> int" where
  "compare u other = compare_components (normal_components u) (normal_components other)"

text \<open>
  url\_view\_base.hpp, the comparison operators:
  \<^verbatim>\<open>
  operator==(u0, u1) { return u0.compare(u1) == 0; }
  operator!=(u0, u1) { return ! (u0 == u1); }
  operator< (u0, u1) { return u0.compare(u1) < 0; }
  operator<=(u0, u1) { return u0.compare(u1) <= 0; }
  operator> (u0, u1) { return u0.compare(u1) > 0; }
  operator>=(u0, u1) { return u0.compare(u1) >= 0; }
  \<close>
\<close>

definition op_eq :: "url_impl \<Rightarrow> url_impl \<Rightarrow> bool" where
  "op_eq u0 u1 = (compare u0 u1 = 0)"

definition op_ne :: "url_impl \<Rightarrow> url_impl \<Rightarrow> bool" where
  "op_ne u0 u1 = (\<not> op_eq u0 u1)"

definition op_lt :: "url_impl \<Rightarrow> url_impl \<Rightarrow> bool" where
  "op_lt u0 u1 = (compare u0 u1 < 0)"

definition op_le :: "url_impl \<Rightarrow> url_impl \<Rightarrow> bool" where
  "op_le u0 u1 = (compare u0 u1 \<le> 0)"

definition op_gt :: "url_impl \<Rightarrow> url_impl \<Rightarrow> bool" where
  "op_gt u0 u1 = (compare u0 u1 > 0)"

definition op_ge :: "url_impl \<Rightarrow> url_impl \<Rightarrow> bool" where
  "op_ge u0 u1 = (compare u0 u1 \<ge> 0)"

text \<open>The sort key of a view: the byte values of its normalised components.\<close>

definition compare_key :: "url_impl \<Rightarrow> nat list list" where
  "compare_key u = map (map of_char) (normal_components u)"

section \<open>Looking up query parameters by key\<close>

text \<open>
  Modelled from the spec: the lookups of params\_encoded\_base.hpp. The header declares
  \<^verbatim>\<open>contains\<close>, \<^verbatim>\<open>count\<close>, \<^verbatim>\<open>find\<close>, \<^verbatim>\<open>find_last\<close> and the private \<^verbatim>\<open>find_impl\<close> and
  \<^verbatim>\<open>find_last_impl\<close>, each taking the key as a \<^verbatim>\<open>pct_string_view\<close>, and documents them:
  "the comparison is performed as if all escaped characters were decoded first", the
  search of \<^verbatim>\<open>find\<close> "starts from the first element and proceeds forward until either the
  key is found or the end of the range is reached, in which case \<open>end()\<close> is returned",
  \<^verbatim>\<open>find_last\<close> proceeds backwards likewise, and \<^verbatim>\<open>system_error\<close> is thrown when "key
  contains an invalid percent-encoding". Their bodies, the validating conversion of a
  string to \<^verbatim>\<open>pct_string_view\<close> and the decoder are not among the sources. The spec: the
  lookups "compare the supplied key against stored keys as if both were percent-decoded
  and, if \<open>ignore_case\<close> is requested, case-folded. Failure to percent-decode the supplied
  key is a parse error, not not-found"; the decoded form replaces "each valid \<open>%HH\<close>
  triplet with the corresponding octet, and (in query context) each \<open>+\<close> with a space".

  An iterator is the index of a parameter in the view, \<open>end()\<close> the number of parameters.
\<close>

text \<open>The conversion of the caller's string into a key: it validates the escapes.\<close>

definition checked_pct_string_view :: "string \<Rightarrow> error_code + pct_string_view" where
  "checked_pct_string_view s =
     (case pct_encoded_run (\<lambda>c. True) s of
        Inl e \<Rightarrow> Inl e
      | Inr (m, dn, rest) \<Rightarrow> Inr \<lparr>pv_s = s, pv_dn = dn\<rparr>)"

fun pct_decode :: "string \<Rightarrow> string" where
  "pct_decode [] = []"
| "pct_decode (c # xs) =
     (if c = CHR ''%'' then
        (case xs of
           h1 # h2 # ys \<Rightarrow>
             if hexdig_chars h1 \<and> hexdig_chars h2
             then char_of (16 * hex_value h1 + hex_value h2) # pct_decode ys
             else c # pct_decode xs
         | _ \<Rightarrow> c # pct_decode xs)
      else if c = CHR ''+'' then CHR '' '' # pct_decode xs
      else c # pct_decode xs)"

definition key_fold :: "bool \<Rightarrow> string \<Rightarrow> string" where
  "key_fold ic s = (if ic then map ascii_tolower (pct_decode s) else pct_decode s)"

definition key_matches :: "bool \<Rightarrow> pct_string_view \<Rightarrow> param_view \<Rightarrow> bool" where
  "key_matches ic key p = (key_fold ic (p_key p) = key_fold ic (pv_s key))"

fun find_loop :: "param_view list \<Rightarrow> nat \<Rightarrow> pct_string_view \<Rightarrow> bool \<Rightarrow> nat" where
  "find_loop [] it key ic = it"
| "find_loop (p # ps) it key ic =
     (if key_matches ic key p then it else find_loop ps (Suc it) key ic)"

definition find_impl :: "url_impl \<Rightarrow> nat \<Rightarrow> pct_string_view \<Rightarrow> bool \<Rightarrow> nat" where
  "find_impl u from key ic = find_loop (drop from (params_elems u)) from key ic"

fun find_last_loop :: "param_view list \<Rightarrow> nat \<Rightarrow> nat \<Rightarrow> pct_string_view \<Rightarrow> bool \<Rightarrow> nat" where
  "find_last_loop ps 0 end' key ic = end'"
| "find_last_loop ps (Suc it) end' key ic =
     (if key_matches ic key (ps ! it) then it else find_last_loop ps it end' key ic)"

definition find_last_impl :: "url_impl \<Rightarrow> nat \<Rightarrow> pct_string_view \<Rightarrow> bool \<Rightarrow> nat" where
  "find_last_impl u before key ic =
     find_last_loop (params_elems u) (min before (length (params_elems u)))
       (length (params_elems u)) key ic"

fun count_loop :: "param_view list \<Rightarrow> pct_string_view \<Rightarrow> bool \<Rightarrow> nat" where
  "count_loop [] key ic = 0"
| "count_loop (p # ps) key ic =
     (if key_matches ic key p then Suc (count_loop ps key ic) else count_loop ps key ic)"

text \<open>
  The lookups as a caller reaches them, with the key as the caller's string: the
  conversion comes first, and its failure is the result.
\<close>

definition params_find_from :: "url_impl \<Rightarrow> nat \<Rightarrow> string \<Rightarrow> bool \<Rightarrow> error_code + nat" where
  "params_find_from u from key ic =
     (case checked_pct_string_view key of
        Inl e \<Rightarrow> Inl e
      | Inr k \<Rightarrow> Inr (find_impl u from k ic))"

definition params_find :: "url_impl \<Rightarrow> string \<Rightarrow> bool \<Rightarrow> error_code + nat" where
  "params_find u key ic = params_find_from u 0 key ic"

definition params_find_last :: "url_impl \<Rightarrow> string \<Rightarrow> bool \<Rightarrow> error_code + nat" where
  "params_find_last u key ic =
     (case checked_pct_string_view key of
        Inl e \<Rightarrow> Inl e
      | Inr k \<Rightarrow> Inr (find_last_impl u (length (params_elems u)) k ic))"

definition params_contains :: "url_impl \<Rightarrow> string \<Rightarrow> bool \<Rightarrow> error_code + bool" where
  "params_contains u key ic =
     (case checked_pct_string_view key of
        Inl e \<Rightarrow> Inl e
      | Inr k \<Rightarrow> Inr (find_impl u 0 k ic \<noteq> length (params_elems u)))"

definition params_count :: "url_impl \<Rightarrow> string \<Rightarrow> bool \<Rightarrow> error_code + nat" where
  "params_count u key ic =
     (case checked_pct_string_view key of
        Inl e \<Rightarrow> Inl e
      | Inr k \<Rightarrow> Inr (count_loop (params_elems u) k ic))"

text \<open>
  A key with an invalid percent-encoding: some \<open>%\<close> in it is not followed by two hex
  digits.
\<close>

definition pct_invalid :: "string \<Rightarrow> bool" where
  "pct_invalid s =
     list_ex (\<lambda>i. s ! i = CHR ''%'' \<and>
                 \<not> (i + 2 < length s \<and> hexdig_chars (s ! (i + 1)) \<and> hexdig_chars (s ! (i + 2))))
       [0..<length s]"

text \<open>Two encoded keys are the same key: equal once decoded (and case-folded).\<close>

definition same_key :: "bool \<Rightarrow> string \<Rightarrow> string \<Rightarrow> bool" where
  "same_key ic a b =
     (if ic then map ascii_tolower (pct_decode a) = map ascii_tolower (pct_decode b)
      else pct_decode a = pct_decode b)"

section \<open>Properties\<close>

subsection \<open>sub-delims\<close>

lemma sub_delim_chars_iff:
  "sub_delim_chars b \<longleftrightarrow>
     b = CHR ''!'' \<or> b = CHR ''$'' \<or> b = CHR ''&'' \<or> b = CHR 0x27 \<or> b = CHR ''('' \<or>
     b = CHR '')'' \<or> b = CHR ''*'' \<or> b = CHR ''+'' \<or> b = CHR '','' \<or> b = CHR '';'' \<or>
     b = CHR ''=''"
  by (auto simp: sub_delim_chars_def lut_chars_def)

text \<open>
  Claim C10. For every byte \<open>b\<close>, \<open>sub_delim_chars b\<close> holds iff \<open>b\<close> is one of the
  eleven RFC 3986 sub-delims \<^verbatim>\<open>! $ & ' ( ) * + , ; =\<close>, given here by their byte values
  (0x21, 0x24, 0x26, 0x27, 0x28, 0x29, 0x2A, 0x2B, 0x2C, 0x3B, 0x3D); the apostrophe 0x27
  is a member; no other byte is.
\<close>

theorem sub_delim_chars_exact:
  "(sub_delim_chars b \<longleftrightarrow>
      (of_char b :: nat) \<in> {0x21, 0x24, 0x26, 0x27, 0x28, 0x29, 0x2A, 0x2B, 0x2C, 0x3B, 0x3D})
   \<and> sub_delim_chars (CHR 0x27)
   \<and> card {c. sub_delim_chars c} = 11"
proof -
  have code: "\<And>c. (b = c) = ((of_char b :: nat) = of_char c)"
    by simp
  have 1: "sub_delim_chars b \<longleftrightarrow>
      (of_char b :: nat) \<in> {0x21, 0x24, 0x26, 0x27, 0x28, 0x29, 0x2A, 0x2B, 0x2C, 0x3B, 0x3D}"
    unfolding sub_delim_chars_iff
    by (subst (1 2 3 4 5 6 7 8 9 10 11) code) simp
  have 2: "sub_delim_chars (CHR 0x27)"
    by (simp add: sub_delim_chars_iff)
  have "{c. sub_delim_chars c} =
     {CHR ''!'', CHR ''$'', CHR ''&'', CHR 0x27, CHR ''('', CHR '')'', CHR ''*'', CHR ''+'',
      CHR '','', CHR '';'', CHR ''=''}"
    by (auto simp: sub_delim_chars_iff)
  then have 3: "card {c. sub_delim_chars c} = 11"
    by simp
  from 1 2 3 show ?thesis by blast
qed

subsection \<open>The token rule consumes the maximal run\<close>

lemma find_if_not_ge: "first \<le> find_if_not buf first lst cs"
proof (induction buf first lst cs rule: find_if_not.induct)
  case (1 buf first lst cs)
  show ?case
  proof (cases "first < lst \<and> cs (buf ! first)")
    case True
    with 1 have "Suc first \<le> find_if_not buf (Suc first) lst cs" by simp
    with True show ?thesis by (subst find_if_not.simps) simp
  next
    case False
    then show ?thesis by (subst find_if_not.simps) auto
  qed
qed

lemma find_if_not_le: "first \<le> lst \<Longrightarrow> find_if_not buf first lst cs \<le> lst"
proof (induction buf first lst cs rule: find_if_not.induct)
  case (1 buf first lst cs)
  show ?case
  proof (cases "first < lst \<and> cs (buf ! first)")
    case True
    with 1 have "find_if_not buf (Suc first) lst cs \<le> lst" by simp
    with True show ?thesis by (subst find_if_not.simps) simp
  next
    case False
    with 1(2) show ?thesis by (subst find_if_not.simps) auto
  qed
qed

lemma find_if_not_matches:
  "first \<le> i \<Longrightarrow> i < find_if_not buf first lst cs \<Longrightarrow> cs (buf ! i)"
proof (induction buf first lst cs rule: find_if_not.induct)
  case (1 buf first lst cs)
  show ?case
  proof (cases "first < lst \<and> cs (buf ! first)")
    case True
    then have eq: "find_if_not buf first lst cs = find_if_not buf (Suc first) lst cs"
      by (subst find_if_not.simps) simp
    show ?thesis
    proof (cases "i = first")
      case True
      with \<open>first < lst \<and> cs (buf ! first)\<close> show ?thesis by simp
    next
      case False
      with 1(2) have "Suc first \<le> i" by simp
      moreover from 1(3) eq have "i < find_if_not buf (Suc first) lst cs" by simp
      ultimately show ?thesis using 1(1) True by simp
    qed
  next
    case False
    then have "find_if_not buf first lst cs = first"
      by (subst find_if_not.simps) auto
    with 1(2,3) show ?thesis by simp
  qed
qed

lemma find_if_not_stops:
  "find_if_not buf first lst cs < lst \<Longrightarrow> \<not> cs (buf ! find_if_not buf first lst cs)"
proof (induction buf first lst cs rule: find_if_not.induct)
  case (1 buf first lst cs)
  show ?case
  proof (cases "first < lst \<and> cs (buf ! first)")
    case True
    then have eq: "find_if_not buf first lst cs = find_if_not buf (Suc first) lst cs"
      by (subst find_if_not.simps) simp
    with 1 True show ?thesis by simp
  next
    case False
    then have eq: "find_if_not buf first lst cs = first"
      by (subst find_if_not.simps) auto
    with 1(2) False show ?thesis by simp
  qed
qed

lemma find_if_not_takeWhile:
  "first \<le> lst \<Longrightarrow> lst \<le> length buf \<Longrightarrow>
   string_view buf first (find_if_not buf first lst cs - first) =
     takeWhile cs (string_view buf first (lst - first))"
proof (induction buf first lst cs rule: find_if_not.induct)
  case (1 buf first lst cs)
  show ?case
  proof (cases "first < lst")
    case False
    with 1(2) have "first = lst" by simp
    then show ?thesis by (subst find_if_not.simps) (simp add: string_view_def)
  next
    case lt: True
    with 1(3) have len: "first < length buf" by simp
    have sv: "string_view buf first (lst - first) =
        buf ! first # string_view buf (Suc first) (lst - Suc first)"
      using lt len unfolding string_view_def
      by (metis Cons_nth_drop_Suc Suc_diff_Suc take_Suc_Cons)
    show ?thesis
    proof (cases "cs (buf ! first)")
      case False
      with lt have "find_if_not buf first lst cs = first"
        by (subst find_if_not.simps) simp
      with False sv show ?thesis by (simp add: string_view_def)
    next
      case True
      with lt have eq: "find_if_not buf first lst cs = find_if_not buf (Suc first) lst cs"
        by (subst find_if_not.simps) simp
      have ge: "Suc first \<le> find_if_not buf (Suc first) lst cs"
        by (rule find_if_not_ge)
      have ih: "string_view buf (Suc first) (find_if_not buf (Suc first) lst cs - Suc first) =
          takeWhile cs (string_view buf (Suc first) (lst - Suc first))"
        using 1(1) lt True 1(3) by simp
      have "string_view buf first (find_if_not buf (Suc first) lst cs - first) =
          buf ! first # string_view buf (Suc first) (find_if_not buf (Suc first) lst cs - Suc first)"
        using ge len unfolding string_view_def
        by (metis Cons_nth_drop_Suc Suc_diff_le diff_Suc_Suc take_Suc_Cons)
      with ih sv True eq show ?thesis by simp
    qed
  qed
qed

text \<open>
  Claim C8. The run-of-charset rule never fails: from every cursor \<open>it\<close> of a valid
  range \<open>[it, end)\<close> of the buffer, \<open>parse\<close> returns true with the success code, the
  matched string is the maximal prefix of the range whose bytes all belong to the
  character set (possibly empty), and the cursor ends exactly past that prefix.
\<close>

theorem token_parse_maximal_run:
  assumes "it \<le> end'" and "end' \<le> length buf"
  shows "\<exists>it' s. token_parse cs buf it end' = (True, success, it', s)
           \<and> it \<le> it' \<and> it' \<le> end' \<and> it' = it + length s
           \<and> s = string_view buf it (length s)
           \<and> s = takeWhile cs (string_view buf it (end' - it))
           \<and> (\<forall>i. it \<le> i \<and> i < it' \<longrightarrow> cs (buf ! i))
           \<and> (it' < end' \<longrightarrow> \<not> cs (buf ! it'))"
proof -
  define it' where "it' = find_if_not buf it end' cs"
  define s where "s = string_view buf it (it' - it)"
  have res: "token_parse cs buf it end' = (True, success, it', s)"
    by (simp add: token_parse_def it'_def s_def Let_def)
  have ge: "it \<le> it'" unfolding it'_def by (rule find_if_not_ge)
  have le: "it' \<le> end'" unfolding it'_def using assms(1) by (rule find_if_not_le)
  have len: "length s = it' - it"
    using le assms(2) by (simp add: s_def string_view_def)
  have pos: "it' = it + length s" using ge len by simp
  have self: "s = string_view buf it (length s)" using len s_def by simp
  have run: "s = takeWhile cs (string_view buf it (end' - it))"
    unfolding s_def it'_def using assms by (rule find_if_not_takeWhile)
  have inside: "\<forall>i. it \<le> i \<and> i < it' \<longrightarrow> cs (buf ! i)"
    unfolding it'_def using find_if_not_matches by blast
  have stop: "it' < end' \<longrightarrow> \<not> cs (buf ! it')"
    unfolding it'_def using find_if_not_stops by blast
  from res ge le pos self run inside stop show ?thesis by blast
qed

theorem token_parse_maximal_run_witness:
  "token_parse sub_delim_chars ''ab!$c'' 2 5 = (True, success, 4, ''!$'')"
proof -
  have h1: "(2::nat) \<le> 5" by simp
  have h2: "(5::nat) \<le> length ''ab!$c''" by simp
  from token_parse_maximal_run [OF h1 h2, of sub_delim_chars]
  obtain it' s where r: "token_parse sub_delim_chars ''ab!$c'' 2 5 = (True, success, it', s)"
    and p: "it' = 2 + length s"
    and t: "s = takeWhile sub_delim_chars (string_view ''ab!$c'' 2 (5 - 2))"
    by blast
  from t have "s = ''!$''"
    by (simp add: string_view_def sub_delim_chars_iff)
  with p r show ?thesis by simp
qed

subsection \<open>Lengths after the record is updated\<close>

lemma len_set_size [simp]:
  "len (set_size i n u) j = (if j = id_end then 0 else if j = i then n else len u j)"
  by (simp add: len_def set_size_def)

lemma len_set_decoded [simp]: "len (set_decoded i n u) j = len u j"
  by (simp add: len_def set_decoded_def)

lemma len_field_updates [simp]:
  "len (u\<lparr>u_host_type := ht\<rparr>) j = len u j"
  "len (u\<lparr>u_port_number := pn\<rparr>) j = len u j"
  "len (u\<lparr>u_ip_addr := ad\<rparr>) j = len u j"
  "len (u\<lparr>u_scheme := sc\<rparr>) j = len u j"
  "len (u\<lparr>u_nseg := k\<rparr>) j = len u j"
  "len (u\<lparr>u_nparam := k\<rparr>) j = len u j"
  "len (u\<lparr>u_decoded := d\<rparr>) j = len u j"
  "len (u\<lparr>u_cs := b\<rparr>) j = len u j"
  by (simp_all add: len_def)

lemma len_init [simp]: "len (url_impl_init b cs) j = 0"
  by (simp add: len_def url_impl_init_def)

lemma is_authority_set [simp]:
  "is_authority (set_size i n u) = is_authority u"
  "is_authority (set_decoded i n u) = is_authority u"
  by (simp_all add: set_size_def set_decoded_def)

lemma host_type_set [simp]:
  "u_host_type (set_size i n u) = u_host_type u"
  "u_host_type (set_decoded i n u) = u_host_type u"
  by (simp_all add: set_size_def set_decoded_def)

subsection \<open>Userinfo and the password length\<close>

text \<open>
  Claim C7. \<open>has_password\<close> holds iff \<open>len[pass] \<ge> 2\<close>. After \<open>apply_userinfo\<close>
  (on an authority-scope record, as its assertion demands) \<open>len[pass]\<close> is the encoded
  size of the password plus 2 (for \<open>:\<close> and \<open>@\<close>) when a password is supplied and 1
  (the trailing \<open>@\<close>) when it is not, so it is at least 1 either way, and
  \<open>has_password\<close> holds exactly when a password was supplied, also in the URL view
  that takes the authority over with \<open>apply_authority\<close>.
\<close>

theorem apply_userinfo_pass_len:
  assumes "is_authority u"
  shows "\<exists>u'. apply_userinfo user pass u = Some u'
           \<and> len u' id_user = pct_size user
           \<and> len u' id_pass = (case pass of Some p \<Rightarrow> pct_size p + 2 | None \<Rightarrow> 1)
           \<and> 1 \<le> len u' id_pass
           \<and> (has_password u' \<longleftrightarrow> 2 \<le> len u' id_pass)
           \<and> (has_password u' \<longleftrightarrow> pass \<noteq> None)
           \<and> (\<not> is_authority w \<longrightarrow>
                 (\<exists>w'. apply_authority u' w = Some w'
                    \<and> len w' id_pass = len u' id_pass
                    \<and> (has_password w' \<longleftrightarrow> pass \<noteq> None)))"
proof -
  from assms obtain u' where u': "apply_userinfo user pass u = Some u'"
    by (cases pass) (simp_all add: apply_userinfo_def Let_def)
  with assms have l: "len u' id_pass = (case pass of Some p \<Rightarrow> pct_size p + 2 | None \<Rightarrow> 1)"
    and lu: "len u' id_user = pct_size user"
    by (cases pass; auto simp: apply_userinfo_def Let_def)+
  from l have one: "1 \<le> len u' id_pass" by (cases pass) simp_all
  have hp: "has_password u' \<longleftrightarrow> 2 \<le> len u' id_pass" by (simp add: has_password_def)
  from l have hs: "has_password u' \<longleftrightarrow> pass \<noteq> None"
    by (cases pass) (simp_all add: has_password_def)
  have au: "\<not> is_authority w \<longrightarrow>
                 (\<exists>w'. apply_authority u' w = Some w'
                    \<and> len w' id_pass = len u' id_pass
                    \<and> (has_password w' \<longleftrightarrow> pass \<noteq> None))"
    using hs by (auto simp: apply_authority_def Let_def has_password_def)
  show ?thesis
    by (rule exI [of _ u'])
       (rule conjI [OF u' conjI [OF lu conjI [OF l conjI [OF one conjI [OF hp conjI [OF hs au]]]]]])
qed

theorem apply_userinfo_pass_len_witness:
  "\<exists>u'. apply_userinfo \<lparr>pv_s = ''jane'', pv_dn = 4\<rparr> (Some \<lparr>pv_s = ''pw'', pv_dn = 2\<rparr>)
            (url_impl_init True ''jane:pw@h'') = Some u'
        \<and> len u' id_pass = 4 \<and> has_password u'
        \<and> (\<exists>w'. apply_authority u' (url_impl_init False ''//jane:pw@h'') = Some w'
               \<and> len w' id_pass = 4 \<and> has_password w')"
proof -
  have a: "is_authority (url_impl_init True ''jane:pw@h'')"
    by (simp add: url_impl_init_def)
  have b: "\<not> is_authority (url_impl_init False ''//jane:pw@h'')"
    by (simp add: url_impl_init_def)
  from apply_userinfo_pass_len [OF a, of "\<lparr>pv_s = ''jane'', pv_dn = 4\<rparr>"
      "Some \<lparr>pv_s = ''pw'', pv_dn = 2\<rparr>" "url_impl_init False ''//jane:pw@h''"] b
  show ?thesis by (auto simp: pct_size_def)
qed

subsection \<open>Host and authority coherence\<close>

lemma coherent_init: "authority_coherent (url_impl_init False cs)"
  by (simp add: authority_coherent_def url_impl_init_def len_def)

lemma coherent_call:
  assumes "authority_coherent u" and "apply_call c u = Some u'"
  shows "authority_coherent u'"
proof (cases c)
  case (call_scheme s)
  with assms show ?thesis
    by (auto simp: authority_coherent_def apply_scheme_def)
next
  case (call_userinfo user pass)
  with assms show ?thesis
    by (simp add: authority_coherent_def apply_userinfo_def)
next
  case (call_host ht s addr)
  with assms show ?thesis
    by (simp add: authority_coherent_def apply_host_def)
next
  case (call_port s pn)
  with assms show ?thesis
    by (simp add: authority_coherent_def apply_port_def)
next
  case (call_authority a)
  with assms show ?thesis
    by (auto simp: authority_coherent_def apply_authority_def Let_def split: if_splits)
next
  case (call_path s nseg)
  with assms show ?thesis
    by (auto simp: authority_coherent_def apply_path_def Let_def)
next
  case (call_query s n)
  with assms show ?thesis
    by (auto simp: authority_coherent_def apply_query_def Let_def)
next
  case (call_frag s)
  with assms show ?thesis
    by (auto simp: authority_coherent_def apply_frag_def)
qed

lemma coherent_run:
  "authority_coherent u \<Longrightarrow> run_calls cs u = Some u' \<Longrightarrow> authority_coherent u'"
proof (induction cs arbitrary: u)
  case Nil
  then show ?case by simp
next
  case (Cons c cs)
  from Cons.prems(2) obtain v where v: "apply_call c u = Some v" and r: "run_calls cs v = Some u'"
    by (auto split: option.splits)
  from Cons.prems(1) v have "authority_coherent v" by (rule coherent_call)
  then show ?case using r by (rule Cons.IH)
qed

text \<open>
  Claim C3. In every full URL view (a record filled from the zero-initialised state by
  any sequence of the calls of url\_impl.ipp), an authority is present iff one of the
  user, pass, host, port parts has non-zero length, which is the same as
  \<open>has_authority\<close>, that is \<open>len[user] > 0\<close>; with no authority the host kind is
  \<open>none\<close> and all four lengths are zero.
\<close>

theorem authority_coherence:
  assumes "run_calls cs (url_impl_init False buf) = Some u"
  shows "(has_authority u \<longleftrightarrow>
            len u id_user > 0 \<or> len u id_pass > 0 \<or> len u id_host > 0 \<or> len u id_port > 0)
       \<and> (has_authority u \<longleftrightarrow> len u id_user > 0)
       \<and> (\<not> has_authority u \<longrightarrow>
            host_type u = host_type_none \<and> len u id_user = 0 \<and> len u id_pass = 0
            \<and> len u id_host = 0 \<and> len u id_port = 0)"
proof -
  have "authority_coherent u"
    using coherent_init assms by (rule coherent_run)
  then show ?thesis
    by (auto simp: authority_coherent_def has_authority_def host_type_def)
qed

theorem authority_coherence_witness:
  "\<exists>a u. run_calls [call_host host_type_name \<lparr>pv_s = ''h'', pv_dn = 1\<rparr> (replicate 16 0)]
             (url_impl_init True ''h'') = Some a
         \<and> run_calls [call_scheme ''http'', call_authority a, call_path \<lparr>pv_s = ''/'', pv_dn = 1\<rparr> 1]
             (url_impl_init False ''http://h/'') = Some u
         \<and> has_authority u \<and> len u id_user = 2 \<and> len u id_host = 1"
proof -
  obtain a where a: "run_calls [call_host host_type_name \<lparr>pv_s = ''h'', pv_dn = 1\<rparr> (replicate 16 0)]
             (url_impl_init True ''h'') = Some a"
    by (simp add: apply_host_def url_impl_init_def)
  then have la: "len a id_user = 0" "len a id_host = 1" "len a id_pass = 0" "len a id_port = 0"
    by (auto simp: apply_host_def Let_def pct_size_def split: if_splits)
  obtain u where u: "run_calls [call_scheme ''http'', call_authority a, call_path \<lparr>pv_s = ''/'', pv_dn = 1\<rparr> 1]
             (url_impl_init False ''http://h/'') = Some u"
    by (simp add: apply_authority_def apply_scheme_def url_impl_init_def Let_def)
  then have lu: "len u id_user = 2" "len u id_host = 1"
    using la
    by (auto simp: apply_authority_def apply_scheme_def apply_path_def Let_def
        url_impl_init_def set_size_def set_decoded_def len_def split: if_splits)
  from authority_coherence [OF u] lu have "has_authority u" by simp
  with a u lu show ?thesis by blast
qed

subsection \<open>Round trip: the parts tile the input\<close>

lemma string_view_append:
  "string_view buf p a @ string_view buf (p + a) b = string_view buf p (a + b)"
  unfolding string_view_def
  by (metis add.commute drop_drop take_add)

lemma concat_slices:
  "concat (slices buf p ns) = string_view buf p (sum_list ns)"
proof (induction ns arbitrary: p)
  case Nil
  then show ?case by (simp add: string_view_def)
next
  case (Cons n ns)
  then show ?case by (simp add: string_view_append)
qed

lemma slices_concat:
  "slices (pre @ concat ps) (length pre) (map length ps) = ps"
proof (induction ps arbitrary: pre)
  case Nil
  then show ?case by simp
next
  case (Cons p ps)
  have "slices ((pre @ p) @ concat ps) (length (pre @ p)) (map length ps) = ps"
    by (rule Cons.IH)
  then show ?case by (simp add: string_view_def)
qed

lemma get_parts_slices:
  "map (get u) url_parts = slices (u_cs u) 0 (map (len u) url_parts)"
  by (simp add: url_parts_def get_def offset_def all_parts_def add.assoc)

lemma sum_parts_general:
  "sum_list (map (len u) url_parts) = url_size u"
  by (simp add: url_parts_def url_size_def offset_def all_parts_def)

lemma concat_parts_general:
  "concat (map (get u) url_parts) = url_string u"
  by (simp only: get_parts_slices concat_slices sum_parts_general url_string_def)

lemma run_calls_cs:
  "run_calls cs u = Some u' \<Longrightarrow> u_cs u' = u_cs u"
proof (induction cs arbitrary: u)
  case Nil
  then show ?case by simp
next
  case (Cons c cs)
  from Cons.prems obtain v where v: "apply_call c u = Some v" and r: "run_calls cs v = Some u'"
    by (auto split: option.splits)
  have "u_cs v = u_cs u"
    using v
    by (cases c)
       (auto simp: apply_scheme_def apply_userinfo_def apply_host_def apply_port_def
          apply_authority_def apply_path_def apply_query_def apply_frag_def Let_def
          set_size_def set_decoded_def split: if_splits option.splits)
  with Cons.IH [OF r] show ?case by simp
qed

lemma authority_view_of_lens:
  "\<exists>a. authority_view_of m = Some a
     \<and> len a id_user = (case am_userinfo m of None \<Rightarrow> 0 | Some (user, pass) \<Rightarrow> length (pv_s user))
     \<and> len a id_pass = (case am_userinfo m of
                          None \<Rightarrow> 0
                        | Some (user, None) \<Rightarrow> 1
                        | Some (user, Some pass) \<Rightarrow> length (pv_s pass) + 2)
     \<and> len a id_host = length (pv_s (am_host m))
     \<and> len a id_port = length (port_text (am_port m))
     \<and> u_port_number a = (case am_port m of None \<Rightarrow> 0 | Some (s, pn) \<Rightarrow> pn)
     \<and> u_host_type a = am_host_type m"
  unfolding authority_view_of_def authority_calls_def port_text_def
  by (auto simp: apply_userinfo_def apply_host_def apply_port_def Let_def pct_size_def
      url_impl_init_def len_def set_size_def set_decoded_def
      split: option.splits prod.splits)

lemma url_view_of_lens:
  "\<exists>u. url_view_of m = Some u \<and> u_cs u = url_text m
     \<and> map (len u) url_parts = map length (part_slices m)
     \<and> u_nseg u = path_segments (pv_s (um_path m)) (um_nseg m)
     \<and> u_nparam u = (case um_query m of None \<Rightarrow> 0 | Some (q, n) \<Rightarrow> n)
     \<and> u_port_number u =
           (case um_authority m of
              None \<Rightarrow> 0
            | Some am \<Rightarrow> (case am_port am of None \<Rightarrow> 0 | Some (s, pn) \<Rightarrow> pn))"
proof -
  show ?thesis
  proof (cases "um_authority m")
    case None
    then show ?thesis
      unfolding url_view_of_def url_calls_def url_parts_def part_slices_def
      by (auto simp: apply_scheme_def apply_path_def apply_query_def apply_frag_def Let_def
          pct_size_def url_impl_init_def len_def set_size_def set_decoded_def
          split: option.splits prod.splits)
  next
    case (Some am)
    from authority_view_of_lens [of am] obtain a where a: "authority_view_of am = Some a"
      and la: "len a id_user = (case am_userinfo am of None \<Rightarrow> 0 | Some (user, pass) \<Rightarrow> length (pv_s user))"
        "len a id_pass = (case am_userinfo am of None \<Rightarrow> 0 | Some (user, None) \<Rightarrow> 1
                        | Some (user, Some pass) \<Rightarrow> length (pv_s pass) + 2)"
        "len a id_host = length (pv_s (am_host am))"
        "len a id_port = length (port_text (am_port am))"
        "u_port_number a = (case am_port am of None \<Rightarrow> 0 | Some (s, pn) \<Rightarrow> pn)"
      by blast
    show ?thesis
      unfolding url_view_of_def url_calls_def url_parts_def part_slices_def
      using Some a la
      by (auto simp: apply_scheme_def apply_path_def apply_query_def apply_frag_def Let_def
          apply_authority_def
          pct_size_def url_impl_init_def len_def set_size_def set_decoded_def
          split: option.splits prod.splits)
  qed
qed

lemma concat_part_slices: "concat (part_slices m) = url_text m"
  by (auto simp: part_slices_def url_text_def authority_text_def userinfo_text_def
      split: option.splits prod.splits)

lemma url_view_of_slices:
  "\<exists>u. url_view_of m = Some u
     \<and> u_cs u = url_text m
     \<and> map (get u) url_parts = part_slices m
     \<and> map (len u) url_parts = map length (part_slices m)
     \<and> u_nseg u = path_segments (pv_s (um_path m)) (um_nseg m)
     \<and> u_nparam u = (case um_query m of None \<Rightarrow> 0 | Some (q, n) \<Rightarrow> n)
     \<and> u_port_number u =
           (case um_authority m of
              None \<Rightarrow> 0
            | Some am \<Rightarrow> (case am_port am of None \<Rightarrow> 0 | Some (s, pn) \<Rightarrow> pn))"
proof -
  from url_view_of_lens [of m] obtain u where u: "url_view_of m = Some u"
    and cs: "u_cs u = url_text m"
    and ls: "map (len u) url_parts = map length (part_slices m)"
    and rest: "u_nseg u = path_segments (pv_s (um_path m)) (um_nseg m)"
      "u_nparam u = (case um_query m of None \<Rightarrow> 0 | Some (q, n) \<Rightarrow> n)"
      "u_port_number u =
           (case um_authority m of
              None \<Rightarrow> 0
            | Some am \<Rightarrow> (case am_port am of None \<Rightarrow> 0 | Some (s, pn) \<Rightarrow> pn))"
    by blast
  have g: "map (get u) url_parts = part_slices m"
    using slices_concat [of "[]" "part_slices m"]
    by (simp add: get_parts_slices cs ls concat_part_slices)
  from u cs g ls rest show ?thesis by blast
qed

text \<open>
  Claim C1. In every view the encoded slices of the parts, in their declared order
  (scheme, user, pass, host, port, path, query, fragment), concatenate to \<open>string()\<close>
  and the part lengths add up to \<open>size()\<close>. For every input that parses as a URL the
  slices are the pieces of the input with their delimiters, so their concatenation is
  the input byte for byte and \<open>size()\<close> is its length.
\<close>

theorem round_trip:
  "concat (map (get v) url_parts) = url_string v
   \<and> sum_list (map (len v) url_parts) = url_size v
   \<and> (\<exists>u. url_view_of m = Some u
     \<and> u_cs u = url_text m
     \<and> map (get u) url_parts = part_slices m
     \<and> concat (map (get u) url_parts) = url_text m
     \<and> sum_list (map (len u) url_parts) = url_size u
     \<and> url_size u = length (url_text m)
     \<and> url_string u = url_text m)"
proof -
  have general: "concat (map (get v) url_parts) = url_string v
      \<and> sum_list (map (len v) url_parts) = url_size v"
    by (simp add: concat_parts_general sum_parts_general)
  from url_view_of_slices [of m] obtain u where u: "url_view_of m = Some u"
    and cs: "u_cs u = url_text m"
    and g: "map (get u) url_parts = part_slices m"
    and ls: "map (len u) url_parts = map length (part_slices m)"
    by blast
  from g have c: "concat (map (get u) url_parts) = url_text m"
    by (simp add: concat_part_slices)
  have s: "sum_list (map (len u) url_parts) = url_size u"
    by (rule sum_parts_general)
  have "url_size u = sum_list (map length (part_slices m))"
    using s ls by simp
  also have "\<dots> = length (concat (part_slices m))"
    by (simp add: length_concat)
  finally have n: "url_size u = length (url_text m)"
    by (simp add: concat_part_slices)
  have "url_string u = url_text m"
    using concat_parts_general [of u] c by simp
  with u cs g c s n general show ?thesis by blast
qed

theorem round_trip_witness:
  "\<exists>u. url_view_of
         \<lparr> um_scheme = Some ''http'',
           um_authority = Some \<lparr> am_userinfo = Some (\<lparr>pv_s = ''u'', pv_dn = 1\<rparr>, None),
                                  am_host_type = host_type_name,
                                  am_host = \<lparr>pv_s = ''h'', pv_dn = 1\<rparr>,
                                  am_addr = replicate 16 0,
                                  am_port = Some (''80'', 80) \<rparr>,
           um_path = \<lparr>pv_s = ''/a/'', pv_dn = 3\<rparr>, um_nseg = 2,
           um_query = Some (\<lparr>pv_s = ''k=v'', pv_dn = 3\<rparr>, 1),
           um_frag = Some \<lparr>pv_s = ''f'', pv_dn = 1\<rparr> \<rparr> = Some u
     \<and> url_string u = ''http://u@h:80/a/?k=v#f''
     \<and> map (get u) url_parts = [''http:'', ''//u'', ''@'', ''h'', '':80'', ''/a/'', ''?k=v'', ''#f'']
     \<and> url_size u = 22"
proof -
  let ?m = "\<lparr> um_scheme = Some ''http'',
           um_authority = Some \<lparr> am_userinfo = Some (\<lparr>pv_s = ''u'', pv_dn = 1\<rparr>, None),
                                  am_host_type = host_type_name,
                                  am_host = \<lparr>pv_s = ''h'', pv_dn = 1\<rparr>,
                                  am_addr = replicate 16 0,
                                  am_port = Some (''80'', 80) \<rparr>,
           um_path = \<lparr>pv_s = ''/a/'', pv_dn = 3\<rparr>, um_nseg = 2,
           um_query = Some (\<lparr>pv_s = ''k=v'', pv_dn = 3\<rparr>, 1),
           um_frag = Some \<lparr>pv_s = ''f'', pv_dn = 1\<rparr> \<rparr>"
  have t: "url_text ?m = ''http://u@h:80/a/?k=v#f''"
    by (simp add: url_text_def authority_text_def userinfo_text_def port_text_def)
  have p: "part_slices ?m = [''http:'', ''//u'', ''@'', ''h'', '':80'', ''/a/'', ''?k=v'', ''#f'']"
    by (simp add: part_slices_def port_text_def)
  from round_trip [of _ ?m] obtain u where u: "url_view_of ?m = Some u"
    and g: "map (get u) url_parts = part_slices ?m"
    and n: "url_size u = length (url_text ?m)"
    and s: "url_string u = url_text ?m"
    by blast
  from n have "url_size u = 22" by (simp only: t) simp
  with u g s t p show ?thesis by (intro exI [of _ u]) simp
qed

subsection \<open>Segments of a path\<close>

lemma slash_not_in_run:
  "\<not> pchars (CHR ''/'')" "\<not> hexdig_chars (CHR ''/'')"
  by (simp_all add: pchars_def unreserved_chars_def alpha_chars_def digit_chars_def
      hexdig_chars_def lut_chars_def sub_delim_chars_iff)

lemma pct_encoded_run_sound:
  "pct_encoded_run cs inp = Inr (m, dn, rest) \<Longrightarrow>
     inp = m @ rest \<and> (\<forall>c \<in> set m. cs c \<or> c = CHR ''%'' \<or> hexdig_chars c)"
proof (induction cs inp arbitrary: m dn rest rule: pct_encoded_run.induct)
  case (1 cs)
  then show ?case by simp
next
  case (2 cs c xs)
  show ?case
  proof (cases "c = CHR ''%''")
    case True
    with "2.prems" obtain h1 h2 ys where xs: "xs = h1 # h2 # ys"
      by (cases xs; cases "tl xs") auto
    with True "2.prems" have hex: "hexdig_chars h1 \<and> hexdig_chars h2"
      by (auto split: if_splits)
    with True xs "2.prems" obtain m' dn' where
      r: "pct_encoded_run cs ys = Inr (m', dn', rest)" and m: "m = c # h1 # h2 # m'"
      by (auto split: sum.splits)
    from "2.IH"(1) [OF True xs _ hex r] xs
    have "ys = m' @ rest \<and> (\<forall>c \<in> set m'. cs c \<or> c = CHR ''%'' \<or> hexdig_chars c)"
      by simp
    with True xs m hex show ?thesis by simp
  next
    case False
    show ?thesis
    proof (cases "cs c")
      case True
      with False "2.prems" obtain m' dn' where
        r: "pct_encoded_run cs xs = Inr (m', dn', rest)" and m: "m = c # m'"
        by (auto split: sum.splits)
      from "2.IH"(2) [OF False True r] m True show ?thesis by simp
    next
      case nc: False
      with False "2.prems" show ?thesis by simp
    qed
  qed
qed

lemma slash_segment_sound:
  assumes "sequence_rule (char_rule (CHR ''/'')) segment_rule inp = Inr (v, rest)"
  shows "\<exists>seg. inp = CHR ''/'' # seg @ rest \<and> CHR ''/'' \<notin> set seg"
proof -
  from assms obtain xs where inp: "inp = CHR ''/'' # xs"
    by (cases inp) (auto simp: sequence_rule_def char_rule_def split: if_splits)
  with assms obtain m dn where r: "pct_encoded_run pchars xs = Inr (m, dn, rest)"
    by (auto simp: sequence_rule_def char_rule_def segment_rule_def pct_encoded_rule_def
        split: sum.splits)
  from pct_encoded_run_sound [OF r] slash_not_in_run
  have "xs = m @ rest" and "CHR ''/'' \<notin> set m" by auto
  with inp show ?thesis by blast
qed

lemma count_slash_free: "ch \<notin> set s \<Longrightarrow> count_list s ch = 0"
  by (induction s) auto

lemma range_loop_slash_segments:
  "range_loop (sequence_rule (char_rule (CHR ''/'')) segment_rule) n inp = (n', rest) \<Longrightarrow>
   \<exists>p. inp = p @ rest \<and> n' = n + count_list p (CHR ''/'') \<and> (p \<noteq> [] \<longrightarrow> hd p = CHR ''/'')"
proof (induction "sequence_rule (char_rule (CHR ''/'')) segment_rule" n inp
       arbitrary: n' rest rule: range_loop.induct)
  case (1 n inp)
  let ?r = "sequence_rule (char_rule (CHR ''/'')) segment_rule"
  show ?case
  proof (cases "?r inp")
    case (Inl e)
    with "1.prems" have "n' = n" "rest = inp"
      by (simp_all add: range_loop.simps [of ?r n inp])
    then show ?thesis by simp
  next
    case (Inr vr)
    obtain v rest1 where vr: "vr = (v, rest1)" by (cases vr)
    from slash_segment_sound [OF Inr [unfolded vr]] obtain seg where
      inp: "inp = CHR ''/'' # seg @ rest1" and seg: "CHR ''/'' \<notin> set seg"
      by blast
    then have shorter: "length rest1 < length inp" by simp
    with Inr vr "1.prems" have "range_loop ?r (Suc n) rest1 = (n', rest)"
      by (simp add: range_loop.simps [of ?r n inp])
    from "1.hyps" [OF Inr [unfolded vr] _ shorter this]
    obtain p where p: "rest1 = p @ rest" "n' = Suc n + count_list p (CHR ''/'')"
      by auto
    let ?q = "CHR ''/'' # seg @ p"
    have "inp = ?q @ rest" using inp p by simp
    moreover have "n' = n + count_list ?q (CHR ''/'')"
      using p seg by (simp add: count_slash_free)
    moreover have "hd ?q = CHR ''/''" by simp
    ultimately show ?thesis by blast
  qed
qed

lemma path_abempty_rule_sound:
  assumes "path_abempty_rule inp = Inr ((p, n), rest)"
  shows "inp = pv_s p @ rest \<and> n = count_list (pv_s p) (CHR ''/'')
       \<and> (pv_s p \<noteq> [] \<longrightarrow> hd (pv_s p) = CHR ''/'')"
proof -
  let ?r = "sequence_rule (char_rule (CHR ''/'')) segment_rule"
  from assms have loop: "range_loop ?r 0 inp = (n, rest)"
    and p: "pv_s p = take (length inp - length rest) inp"
    by (auto simp: path_abempty_rule_def range_rule_def make_pct_string_view_def
        split: prod.splits)
  from range_loop_slash_segments [OF loop] obtain q where
    q: "inp = q @ rest" "n = count_list q (CHR ''/'')" "q \<noteq> [] \<longrightarrow> hd q = CHR ''/''"
    by auto
  with p have "pv_s p = q" by simp
  with q show ?thesis by simp
qed

lemma path_abempty_rule_total: "\<exists>p n rest. path_abempty_rule inp = Inr ((p, n), rest)"
  by (auto simp: path_abempty_rule_def range_rule_def split: prod.splits)

lemma split_on_nonempty [simp]: "split_on ch s \<noteq> []"
  by (induction s) (auto split: list.splits)

lemma length_split_on: "length (split_on ch s) = Suc (count_list s ch)"
  by (induction s) (auto split: list.splits)

lemma join_split_on: "join_with ch (split_on ch s) = s"
proof (induction s)
  case Nil
  then show ?case by simp
next
  case (Cons x xs)
  obtain p ps where ps: "split_on ch xs = p # ps"
    by (cases "split_on ch xs") auto
  with Cons show ?case by (cases ps) auto
qed

lemma split_on_free: "\<forall>p \<in> set (split_on ch s). ch \<notin> set p"
  by (induction s) (auto split: list.splits)

lemma last_split_on:
  "s \<noteq> [] \<Longrightarrow> last s = ch \<Longrightarrow> last (split_on ch s) = []"
proof (induction s)
  case Nil
  then show ?case by simp
next
  case (Cons x xs)
  show ?case
  proof (cases "xs = []")
    case True
    with Cons.prems show ?thesis by simp
  next
    case False
    with Cons have ih: "last (split_on ch xs) = []" by simp
    obtain p ps where ps: "split_on ch xs = p # ps"
      by (cases "split_on ch xs") auto
    have "p # ps \<noteq> [[]]"
    proof
      assume "p # ps = [[]]"
      with ps have "join_with ch (split_on ch xs) = []" by simp
      with False show False by (simp add: join_split_on)
    qed
    with ih ps show ?thesis by (cases ps) auto
  qed
qed

lemma url_view_of_path:
  "\<exists>u. url_view_of m = Some u \<and> encoded_path u = pv_s (um_path m)
     \<and> u_nseg u = path_segments (pv_s (um_path m)) (um_nseg m)"
proof -
  from url_view_of_slices [of m] obtain u where u: "url_view_of m = Some u"
    and g: "map (get u) url_parts = part_slices m"
    and n: "u_nseg u = path_segments (pv_s (um_path m)) (um_nseg m)"
    by blast
  from g have "get u id_path = pv_s (um_path m)"
    by (simp add: url_parts_def part_slices_def)
  with u n show ?thesis by (auto simp: encoded_path_def)
qed

text \<open>The other path rules: what their elements consume, and their counts.\<close>

lemma slash_not_nocolon: "\<not> nocolon_pchars (CHR ''/'')"
  by (simp add: nocolon_pchars_def slash_not_in_run)

lemma pct_encoded_rule_no_slash:
  assumes "\<not> cs (CHR ''/'')" and "pct_encoded_rule cs inp = Inr (s, rest)"
  shows "inp = pv_s s @ rest \<and> CHR ''/'' \<notin> set (pv_s s)"
proof -
  from assms(2) obtain m dn where r: "pct_encoded_run cs inp = Inr (m, dn, rest)"
    and s: "pv_s s = m"
    by (auto simp: pct_encoded_rule_def split: sum.splits)
  from pct_encoded_run_sound [OF r] assms(1) slash_not_in_run(2)
  have "inp = m @ rest" and "CHR ''/'' \<notin> set m" by auto
  with s show ?thesis by simp
qed

lemma not_empty_segment_sound:
  assumes "\<not> cs (CHR ''/'')" and "not_empty_rule (pct_encoded_rule cs) inp = Inr (s, rest)"
  shows "inp = pv_s s @ rest \<and> CHR ''/'' \<notin> set (pv_s s) \<and> pv_s s \<noteq> []"
proof -
  from assms(2) have r: "pct_encoded_rule cs inp = Inr (s, rest)"
    and ne: "length rest \<noteq> length inp"
    by (auto simp: not_empty_rule_def split: sum.splits if_splits)
  from pct_encoded_rule_no_slash [OF assms(1) r] ne show ?thesis by auto
qed

lemma slash_segment_ns_sound:
  assumes "sequence_rule (char_rule (CHR ''/'')) segment_ns_rule inp = Inr (v, rest)"
  shows "\<exists>seg. inp = CHR ''/'' # seg @ rest \<and> CHR ''/'' \<notin> set seg"
proof -
  from assms obtain xs where inp: "inp = CHR ''/'' # xs"
    by (cases inp) (auto simp: sequence_rule_def char_rule_def split: if_splits)
  with assms obtain s where r: "pct_encoded_rule pchars xs = Inr (s, rest)"
    by (auto simp: sequence_rule_def char_rule_def segment_ns_rule_def
        split: sum.splits if_splits)
  from pct_encoded_rule_no_slash [OF slash_not_in_run(1) r] inp show ?thesis by blast
qed

lemma range_loop_slash_segment_rule:
  "range_loop slash_segment_rule n inp = (n', rest) \<Longrightarrow>
   \<exists>p. inp = p @ rest \<and> n' = n + count_list p (CHR ''/'') \<and> (p \<noteq> [] \<longrightarrow> hd p = CHR ''/'')"
  unfolding slash_segment_rule_def by (rule range_loop_slash_segments)

lemma range_rule2_sound:
  assumes "range_rule2 r0 slash_segment_rule 1 inp = Inr ((p, n), rest)"
  shows "\<exists>v rest0 q. r0 inp = Inr (v, rest0) \<and> rest0 = q @ rest
           \<and> n = Suc (count_list q (CHR ''/'')) \<and> (q \<noteq> [] \<longrightarrow> hd q = CHR ''/'')
           \<and> pv_s p = take (length inp - length rest) inp"
proof (cases "r0 inp")
  case (Inl e)
  with assms show ?thesis by (simp add: range_rule2_def)
next
  case (Inr vr)
  obtain v rest0 where vr: "vr = (v, rest0)" by (cases vr)
  obtain k rest' where loop: "range_loop slash_segment_rule 1 rest0 = (k, rest')"
    by (cases "range_loop slash_segment_rule 1 rest0")
  with assms Inr vr have k: "k = n" and r: "rest' = rest"
    and p: "pv_s p = take (length inp - length rest) inp"
    by (auto simp: range_rule2_def make_pct_string_view_def split: if_splits)
  from range_loop_slash_segment_rule [OF loop] k r obtain q where
    "rest0 = q @ rest" "n = 1 + count_list q (CHR ''/'')" "q \<noteq> [] \<longrightarrow> hd q = CHR ''/''"
    by auto
  with Inr vr p show ?thesis by auto
qed

lemma path_absolute_rule_sound:
  assumes "path_absolute_rule inp = Inr ((p, n), rest)"
  shows "inp = pv_s p @ rest \<and> n = grammar_segment_count (pv_s p)"
proof -
  from range_rule2_sound [OF assms [unfolded path_absolute_rule_def]]
  obtain v rest0 q where f: "sequence_rule (char_rule (CHR ''/'')) segment_ns_rule inp = Inr (v, rest0)"
    and q: "rest0 = q @ rest" "n = Suc (count_list q (CHR ''/''))"
    and p: "pv_s p = take (length inp - length rest) inp"
    by blast
  from slash_segment_ns_sound [OF f] obtain seg where
    inp: "inp = CHR ''/'' # seg @ rest0" and seg: "CHR ''/'' \<notin> set seg"
    by blast
  from inp q p have pp: "pv_s p = CHR ''/'' # seg @ q" by simp
  with q seg have "n = grammar_segment_count (pv_s p)"
    by (simp add: grammar_segment_count_def count_slash_free)
  with inp q pp show ?thesis by simp
qed

lemma path_first_segment_sound:
  assumes cs: "\<not> cs (CHR ''/'')"
    and r: "range_rule2 (not_empty_rule (pct_encoded_rule cs)) slash_segment_rule 1 inp = Inr ((p, n), rest)"
  shows "inp = pv_s p @ rest \<and> n = grammar_segment_count (pv_s p)"
proof -
  from range_rule2_sound [OF r]
  obtain s rest0 q where f: "not_empty_rule (pct_encoded_rule cs) inp = Inr (s, rest0)"
    and q: "rest0 = q @ rest" "n = Suc (count_list q (CHR ''/''))"
    and p: "pv_s p = take (length inp - length rest) inp"
    by blast
  from not_empty_segment_sound [OF cs f]
  have inp: "inp = pv_s s @ rest0" and seg: "CHR ''/'' \<notin> set (pv_s s)" and ne: "pv_s s \<noteq> []"
    by simp_all
  from inp q p have pp: "pv_s p = pv_s s @ q" by simp
  from ne seg have "hd (pv_s s) \<noteq> CHR ''/''" by (cases "pv_s s") auto
  with ne pp have "pv_s p \<noteq> [] \<and> hd (pv_s p) \<noteq> CHR ''/''" by simp
  with pp q seg have "n = grammar_segment_count (pv_s p)"
    by (simp add: grammar_segment_count_def count_slash_free)
  with inp q pp show ?thesis by simp
qed

lemma path_abempty_rule_count:
  assumes "path_abempty_rule inp = Inr ((p, n), rest)"
  shows "inp = pv_s p @ rest \<and> n = grammar_segment_count (pv_s p)"
  using path_abempty_rule_sound [OF assms] by (auto simp: grammar_segment_count_def)

lemma path_rootless_rule_sound:
  assumes "path_rootless_rule inp = Inr ((p, n), rest)"
  shows "inp = pv_s p @ rest \<and> n = grammar_segment_count (pv_s p)"
  using assms unfolding path_rootless_rule_def segment_nz_rule_def
  by (rule path_first_segment_sound [where cs = pchars, OF slash_not_in_run(1)])

lemma path_noscheme_rule_sound:
  assumes "path_noscheme_rule inp = Inr ((p, n), rest)"
  shows "inp = pv_s p @ rest \<and> n = grammar_segment_count (pv_s p)"
  using assms unfolding path_noscheme_rule_def segment_nz_nc_rule_def
  by (rule path_first_segment_sound [where cs = nocolon_pchars, OF slash_not_nocolon])

lemma path_rule_matched_count:
  assumes "path_rule_matched inp (p, n) rest"
  shows "inp = pv_s p @ rest \<and> n = grammar_segment_count (pv_s p)"
  using assms path_abempty_rule_count path_absolute_rule_sound
    path_rootless_rule_sound path_noscheme_rule_sound
  unfolding path_rule_matched_def
  by blast

lemma path_rules_examples:
  "path_absolute_rule ''/only/a/path?k=v#f'' =
     Inr ((\<lparr>pv_s = ''/only/a/path'', pv_dn = 12\<rparr>, 3), ''?k=v#f'')"
  "path_absolute_rule ''/'' = Inr ((\<lparr>pv_s = ''/'', pv_dn = 1\<rparr>, 1), [])"
  "path_absolute_rule ''//a'' = Inl error_mismatch"
  "path_absolute_rule ''a/b'' = Inl error_mismatch"
  "path_rootless_rule ''a@b/c'' = Inr ((\<lparr>pv_s = ''a@b/c'', pv_dn = 5\<rparr>, 2), [])"
  "path_rootless_rule ''/a'' = Inl error_mismatch"
  "path_noscheme_rule ''a/b:c/'' = Inr ((\<lparr>pv_s = ''a/b:c/'', pv_dn = 6\<rparr>, 3), [])"
  "path_noscheme_rule ''a:b'' = Inr ((\<lparr>pv_s = ''a'', pv_dn = 1\<rparr>, 1), '':b'')"
  "path_abempty_rule ''?q'' = Inr ((\<lparr>pv_s = [], pv_dn = 0\<rparr>, 0), ''?q'')"
  by code_simp+

text \<open>
  Claim C2, as amended. For every successfully parsed URL (its path matched by one of the
  four path rules, which hands the path and its number of elements to \<open>apply_path\<close>):
  an empty path has 0 segments and the path \<open>/\<close> has 0 segments; otherwise the segments
  are the maximal \<open>/\<close>-free runs between the \<open>/\<close> boundaries (joined by \<open>/\<close>, after the
  leading \<open>/\<close> if the path has one, they give the path back), where a leading \<open>/\<close>
  introduces no leading empty segment, and a trailing \<open>/\<close> does introduce a trailing
  empty segment; the segment count stored at parse time is the number of elements
  \<open>segments()\<close> yields.
\<close>

theorem segment_count_agrees:
  assumes "path_rule_matched inp (um_path m, um_nseg m) rest"
  shows "\<exists>u. url_view_of m = Some u
     \<and> encoded_path u = pv_s (um_path m)
     \<and> inp = encoded_path u @ rest
     \<and> um_nseg m = grammar_segment_count (encoded_path u)
     \<and> (encoded_path u = [] \<longrightarrow> u_nseg u = 0)
     \<and> (encoded_path u = ''/'' \<longrightarrow> u_nseg u = 0)
     \<and> (encoded_path u \<noteq> [] \<and> encoded_path u \<noteq> ''/'' \<longrightarrow>
          segments_elems (segments u) =
            split_on (CHR ''/'')
              (if hd (encoded_path u) = CHR ''/'' then tl (encoded_path u) else encoded_path u)
          \<and> encoded_path u =
              (if hd (encoded_path u) = CHR ''/'' then ''/'' else [])
              @ join_with (CHR ''/'') (segments_elems (segments u))
          \<and> (\<forall>s \<in> set (segments_elems (segments u)). CHR ''/'' \<notin> set s)
          \<and> (last (encoded_path u) = CHR ''/'' \<longrightarrow> last (segments_elems (segments u)) = []))
     \<and> sv_n (segments u) = u_nseg u
     \<and> length (segments_elems (segments u)) = u_nseg u"
proof -
  from url_view_of_path [of m] obtain u where u: "url_view_of m = Some u"
    and ep: "encoded_path u = pv_s (um_path m)"
    and n: "u_nseg u = path_segments (pv_s (um_path m)) (um_nseg m)"
    by blast
  define p where "p = encoded_path u"
  from ep have ep': "p = pv_s (um_path m)" by (simp add: p_def)
  from path_rule_matched_count [OF assms] ep'
  have inp: "inp = p @ rest" and cnt: "um_nseg m = grammar_segment_count p"
    by simp_all
  have nseg: "u_nseg u = (if p = [] \<or> p = ''/'' then 0 else grammar_segment_count p)"
    using n ep' cnt by (simp add: path_segments_def)
  let ?t = "if hd p = CHR ''/'' then tl p else p"
  have el: "segments_elems (segments u) =
      (if p = [] \<or> p = ''/'' then [] else split_on (CHR ''/'') ?t)"
    by (simp add: segments_elems_def segments_def p_def Let_def)
  have tcount: "p \<noteq> [] \<Longrightarrow> Suc (count_list ?t (CHR ''/'')) = grammar_segment_count p"
    by (cases p) (auto simp: grammar_segment_count_def)
  have len: "length (segments_elems (segments u)) = u_nseg u"
  proof (cases "p = [] \<or> p = ''/''")
    case True
    with el nseg show ?thesis by auto
  next
    case False
    then have "p \<noteq> []" by simp
    from tcount [OF this] False el nseg show ?thesis
      by (simp add: length_split_on)
  qed
  have shape: "p \<noteq> [] \<and> p \<noteq> ''/'' \<longrightarrow>
          segments_elems (segments u) = split_on (CHR ''/'') ?t
          \<and> p = (if hd p = CHR ''/'' then ''/'' else []) @ join_with (CHR ''/'') (segments_elems (segments u))
          \<and> (\<forall>s \<in> set (segments_elems (segments u)). CHR ''/'' \<notin> set s)
          \<and> (last p = CHR ''/'' \<longrightarrow> last (segments_elems (segments u)) = [])"
  proof (intro impI)
    assume ne: "p \<noteq> [] \<and> p \<noteq> ''/''"
    from ne el have e: "segments_elems (segments u) = split_on (CHR ''/'') ?t" by simp
    have tp: "p = (if hd p = CHR ''/'' then ''/'' else []) @ ?t"
      using ne by (cases p) auto
    have j: "p = (if hd p = CHR ''/'' then ''/'' else []) @ join_with (CHR ''/'') (segments_elems (segments u))"
      using tp by (simp only: e join_split_on)
    have f: "\<forall>s \<in> set (segments_elems (segments u)). CHR ''/'' \<notin> set s"
      using e split_on_free by simp
    have tne: "?t \<noteq> []" using ne by (cases p) auto
    have tl: "last ?t = last p" using ne by (cases p) auto
    have l: "last p = CHR ''/'' \<longrightarrow> last (segments_elems (segments u)) = []"
    proof
      assume "last p = CHR ''/''"
      with tl have "last ?t = CHR ''/''" by simp
      with tne have "last (split_on (CHR ''/'') ?t) = []" by (rule last_split_on)
      with e show "last (segments_elems (segments u)) = []" by simp
    qed
    show "segments_elems (segments u) = split_on (CHR ''/'') ?t
          \<and> p = (if hd p = CHR ''/'' then ''/'' else []) @ join_with (CHR ''/'') (segments_elems (segments u))
          \<and> (\<forall>s \<in> set (segments_elems (segments u)). CHR ''/'' \<notin> set s)
          \<and> (last p = CHR ''/'' \<longrightarrow> last (segments_elems (segments u)) = [])"
      by (rule conjI [OF e conjI [OF j conjI [OF f l]]])
  qed
  have z1: "p = [] \<longrightarrow> u_nseg u = 0" and z2: "p = ''/'' \<longrightarrow> u_nseg u = 0"
    using nseg by simp_all
  have sn: "sv_n (segments u) = u_nseg u" by (simp add: segments_def)
  have "url_view_of m = Some u
     \<and> p = pv_s (um_path m)
     \<and> inp = p @ rest
     \<and> um_nseg m = grammar_segment_count p
     \<and> (p = [] \<longrightarrow> u_nseg u = 0)
     \<and> (p = ''/'' \<longrightarrow> u_nseg u = 0)
     \<and> (p \<noteq> [] \<and> p \<noteq> ''/'' \<longrightarrow>
          segments_elems (segments u) = split_on (CHR ''/'') ?t
          \<and> p = (if hd p = CHR ''/'' then ''/'' else []) @ join_with (CHR ''/'') (segments_elems (segments u))
          \<and> (\<forall>s \<in> set (segments_elems (segments u)). CHR ''/'' \<notin> set s)
          \<and> (last p = CHR ''/'' \<longrightarrow> last (segments_elems (segments u)) = []))
     \<and> sv_n (segments u) = u_nseg u
     \<and> length (segments_elems (segments u)) = u_nseg u"
    by (rule conjI [OF u conjI [OF ep' conjI [OF inp conjI [OF cnt conjI [OF z1
          conjI [OF z2 conjI [OF shape conjI [OF sn len]]]]]]]])
  then show ?thesis unfolding p_def by (rule exI)
qed

text \<open>
  The claim as worded fails on the path \<open>/a/\<close> (of \<open>//h/a/\<close>): the rule counts two
  elements, \<open>/a\<close> and \<open>/\<close>; two segments are stored and yielded, \<open>a\<close> and the empty
  segment after the trailing \<open>/\<close>; the claim's wording allows one.
\<close>

lemma abempty_example:
  "path_abempty_rule ''/a/'' = Inr ((\<lparr>pv_s = ''/a/'', pv_dn = 3\<rparr>, 2), [])"
  by code_simp

theorem trailing_slash_counterexample:
  "path_abempty_rule ''/a/'' = Inr ((\<lparr>pv_s = ''/a/'', pv_dn = 3\<rparr>, 2), [])
   \<and> u_nseg (apply_path \<lparr>pv_s = ''/a/'', pv_dn = 3\<rparr> 2 (url_impl_init False ''//h/a/'')) = 2
   \<and> segments_elems \<lparr>sv_s = ''/a/'', sv_n = 2\<rparr> = [''a'', []]
   \<and> claimed_segments ''/a/'' = [''a'']
   \<and> u_nseg (apply_path \<lparr>pv_s = ''/a/'', pv_dn = 3\<rparr> 2 (url_impl_init False ''//h/a/''))
       \<noteq> length (claimed_segments ''/a/'')"
proof -
  have 1: "path_abempty_rule ''/a/'' = Inr ((\<lparr>pv_s = ''/a/'', pv_dn = 3\<rparr>, 2), [])"
    by (rule abempty_example)
  have 2: "u_nseg (apply_path \<lparr>pv_s = ''/a/'', pv_dn = 3\<rparr> 2 (url_impl_init False ''//h/a/'')) = 2"
    by (simp add: apply_path_def path_segments_def Let_def)
  have 3: "segments_elems \<lparr>sv_s = ''/a/'', sv_n = 2\<rparr> = [''a'', []]"
    by (simp add: segments_elems_def)
  have 4: "claimed_segments ''/a/'' = [''a'']"
    by (simp add: claimed_segments_def)
  from 1 2 3 4 show ?thesis by simp
qed

theorem segment_count_agrees_witness:
  "path_abempty_rule ''/a//b/'' = Inr ((\<lparr>pv_s = ''/a//b/'', pv_dn = 6\<rparr>, 4), [])
   \<and> (\<exists>u. url_view_of
          \<lparr> um_scheme = Some ''http'',
            um_authority = Some \<lparr> am_userinfo = None, am_host_type = host_type_name,
                                   am_host = \<lparr>pv_s = ''h'', pv_dn = 1\<rparr>,
                                   am_addr = replicate 16 0, am_port = None \<rparr>,
            um_path = \<lparr>pv_s = ''/a//b/'', pv_dn = 6\<rparr>, um_nseg = 4,
            um_query = None, um_frag = None \<rparr> = Some u
        \<and> segments_elems (segments u) = [''a'', [], ''b'', []]
        \<and> u_nseg u = 4)
   \<and> path_rootless_rule ''a@b/c'' = Inr ((\<lparr>pv_s = ''a@b/c'', pv_dn = 5\<rparr>, 2), [])
   \<and> (\<exists>u. url_view_of
          \<lparr> um_scheme = Some ''mailto'', um_authority = None,
            um_path = \<lparr>pv_s = ''a@b/c'', pv_dn = 5\<rparr>, um_nseg = 2,
            um_query = None, um_frag = None \<rparr> = Some u
        \<and> segments_elems (segments u) = [''a@b'', ''c'']
        \<and> u_nseg u = 2)
   \<and> path_absolute_rule ''/'' = Inr ((\<lparr>pv_s = ''/'', pv_dn = 1\<rparr>, 1), [])
   \<and> (\<exists>u. url_view_of
          \<lparr> um_scheme = None, um_authority = None,
            um_path = \<lparr>pv_s = ''/'', pv_dn = 1\<rparr>, um_nseg = 1,
            um_query = None, um_frag = None \<rparr> = Some u
        \<and> segments_elems (segments u) = []
        \<and> u_nseg u = 0)"
proof -
  let ?m = "\<lparr> um_scheme = Some ''http'',
            um_authority = Some \<lparr> am_userinfo = None, am_host_type = host_type_name,
                                   am_host = \<lparr>pv_s = ''h'', pv_dn = 1\<rparr>,
                                   am_addr = replicate 16 0, am_port = None \<rparr>,
            um_path = \<lparr>pv_s = ''/a//b/'', pv_dn = 6\<rparr>, um_nseg = 4,
            um_query = None, um_frag = None \<rparr>"
  let ?k = "\<lparr> um_scheme = Some ''mailto'', um_authority = None,
            um_path = \<lparr>pv_s = ''a@b/c'', pv_dn = 5\<rparr>, um_nseg = 2,
            um_query = None, um_frag = None \<rparr>"
  let ?j = "\<lparr> um_scheme = None, um_authority = None,
            um_path = \<lparr>pv_s = ''/'', pv_dn = 1\<rparr>, um_nseg = 1,
            um_query = None, um_frag = None \<rparr>"
  have r: "path_abempty_rule ''/a//b/'' = Inr ((\<lparr>pv_s = ''/a//b/'', pv_dn = 6\<rparr>, 4), [])"
    by code_simp
  then have r': "path_rule_matched ''/a//b/'' (um_path ?m, um_nseg ?m) []"
    by (simp add: path_rule_matched_def)
  from segment_count_agrees [OF r'] obtain u where u: "url_view_of ?m = Some u"
    and p: "encoded_path u = pv_s (um_path ?m)"
    and s: "encoded_path u \<noteq> [] \<and> encoded_path u \<noteq> ''/'' \<longrightarrow>
          segments_elems (segments u) =
            split_on (CHR ''/'')
              (if hd (encoded_path u) = CHR ''/'' then tl (encoded_path u) else encoded_path u)"
    and n: "length (segments_elems (segments u)) = u_nseg u"
    by blast
  from p have p': "encoded_path u = ''/a//b/''" by simp
  with s have e: "segments_elems (segments u) = [''a'', [], ''b'', []]" by simp
  with n have c: "u_nseg u = 4" by simp
  have g: "path_rootless_rule ''a@b/c'' = Inr ((\<lparr>pv_s = ''a@b/c'', pv_dn = 5\<rparr>, 2), [])"
    by code_simp
  then have g': "path_rule_matched ''a@b/c'' (um_path ?k, um_nseg ?k) []"
    by (simp add: path_rule_matched_def)
  from segment_count_agrees [OF g'] obtain v where v: "url_view_of ?k = Some v"
    and q: "encoded_path v = pv_s (um_path ?k)"
    and t: "encoded_path v \<noteq> [] \<and> encoded_path v \<noteq> ''/'' \<longrightarrow>
          segments_elems (segments v) =
            split_on (CHR ''/'')
              (if hd (encoded_path v) = CHR ''/'' then tl (encoded_path v) else encoded_path v)"
    and k: "length (segments_elems (segments v)) = u_nseg v"
    by blast
  from q have q': "encoded_path v = ''a@b/c''" by simp
  with t have f: "segments_elems (segments v) = [''a@b'', ''c'']" by simp
  with k have d: "u_nseg v = 2" by simp
  have a: "path_absolute_rule ''/'' = Inr ((\<lparr>pv_s = ''/'', pv_dn = 1\<rparr>, 1), [])"
    by code_simp
  then have a': "path_rule_matched ''/'' (um_path ?j, um_nseg ?j) []"
    by (simp add: path_rule_matched_def)
  from segment_count_agrees [OF a'] obtain w where w: "url_view_of ?j = Some w"
    and wp: "encoded_path w = pv_s (um_path ?j)"
    and wz: "encoded_path w = ''/'' \<longrightarrow> u_nseg w = 0"
    and wl: "length (segments_elems (segments w)) = u_nseg w"
    by blast
  from wp wz have wn: "u_nseg w = 0" by simp
  with wl have we: "segments_elems (segments w) = []" by simp
  from r u e c g v f d a w we wn show ?thesis by blast
qed

subsection \<open>The port number\<close>

lemma foldl_decimal_mono:
  "n \<le> foldl (\<lambda>n d. 10 * n + digit_value d) n ds"
proof (induction ds arbitrary: n)
  case Nil
  then show ?case by simp
next
  case (Cons d ds)
  have "n \<le> 10 * n + digit_value d" by simp
  also have "\<dots> \<le> foldl (\<lambda>n d. 10 * n + digit_value d) (10 * n + digit_value d) ds"
    by (rule Cons.IH)
  finally show ?case by simp
qed

lemma port_accumulate_decimal:
  "port_accumulate ds n =
     (let v = foldl (\<lambda>n d. 10 * n + digit_value d) n ds in
      if v > 65535 then None else Some v)"
  if "n \<le> 65535"
  using that
proof (induction ds arbitrary: n)
  case Nil
  then show ?case by simp
next
  case (Cons d ds)
  let ?n' = "10 * n + digit_value d"
  show ?case
  proof (cases "?n' > 65535")
    case True
    with foldl_decimal_mono [of ?n' ds]
    have "foldl (\<lambda>n d. 10 * n + digit_value d) ?n' ds > 65535" by simp
    with True show ?thesis by (simp add: Let_def)
  next
    case False
    then have "?n' \<le> 65535" by simp
    from Cons.IH [OF this] False show ?thesis by (simp add: Let_def)
  qed
qed

lemma port_rule_number_decimal:
  "port_rule_number ds = (if decimal_value ds > 65535 then 0 else of_nat (decimal_value ds))"
  by (simp add: port_rule_number_def decimal_value_def port_accumulate_decimal Let_def)

lemma unat_port_rule_number:
  "decimal_value ds \<le> 65535 \<Longrightarrow> unat (port_rule_number ds) = decimal_value ds"
  by (simp add: port_rule_number_decimal unat_of_nat)

lemma token_rule_run:
  "token_rule cs inp = Inr (takeWhile cs inp, dropWhile cs inp)"
proof -
  have h1: "(0::nat) \<le> length inp" by simp
  have h2: "length inp \<le> length inp" by simp
  define it' where "it' = find_if_not inp 0 (length inp) cs"
  have sv: "string_view inp 0 (it' - 0) = takeWhile cs (string_view inp 0 (length inp - 0))"
    unfolding it'_def by (rule find_if_not_takeWhile [OF h1 h2])
  have le: "it' \<le> length inp"
    unfolding it'_def by (rule find_if_not_le [OF h1])
  from sv have tw: "take it' inp = takeWhile cs inp"
    by (simp add: string_view_def)
  with le have "it' = length (takeWhile cs inp)"
    by (metis length_take min.absorb2)
  then have "drop it' inp = dropWhile cs inp"
    by (simp add: dropWhile_eq_drop)
  with tw show ?thesis
    by (simp add: token_rule_def token_parse_def Let_def it'_def string_view_def)
qed

lemma port_rule_run:
  "port_rule inp =
     Inr ((takeWhile digit_chars inp, port_rule_number (takeWhile digit_chars inp)),
          dropWhile digit_chars inp)"
  by (simp add: port_rule_def token_rule_run)

lemma url_view_of_port:
  assumes "um_authority m = Some am" and "am_port am = Some (ds, pn)"
  shows "\<exists>u. url_view_of m = Some u \<and> get u id_port = CHR '':'' # ds
           \<and> len u id_port = Suc (length ds) \<and> u_port_number u = pn"
proof -
  from url_view_of_slices [of m] obtain u where u: "url_view_of m = Some u"
    and g: "map (get u) url_parts = part_slices m"
    and l: "map (len u) url_parts = map length (part_slices m)"
    and n: "u_port_number u =
           (case um_authority m of
              None \<Rightarrow> 0
            | Some am \<Rightarrow> (case am_port am of None \<Rightarrow> 0 | Some (s, pn) \<Rightarrow> pn))"
    by blast
  from g assms have "get u id_port = CHR '':'' # ds"
    by (simp add: url_parts_def part_slices_def port_text_def)
  moreover from l assms have "len u id_port = Suc (length ds)"
    by (simp add: url_parts_def part_slices_def port_text_def)
  moreover from n assms have "u_port_number u = pn" by simp
  ultimately show ?thesis using u by blast
qed

text \<open>
  Claim C4. For every parsed URL with a port: \<open>has_port()\<close> holds and \<open>port()\<close> is the
  literal digit string; when the digits denote a value above 65535, \<open>port_number()\<close> is
  0; when the value fits in 16 bits, \<open>port_number()\<close> is that value.
\<close>

theorem port_number_saturates:
  assumes "port_rule inp = Inr (p, rest)"
    and "um_authority m = Some am" and "am_port am = Some p"
  shows "\<exists>u. url_view_of m = Some u
     \<and> has_port u
     \<and> port u = fst p \<and> port u = takeWhile digit_chars inp
     \<and> (\<forall>c \<in> set (port u). digit_chars c)
     \<and> (decimal_value (port u) > 65535 \<longrightarrow> port_number u = 0)
     \<and> (decimal_value (port u) \<le> 65535 \<longrightarrow> unat (port_number u) = decimal_value (port u))"
proof -
  obtain ds pn where p: "p = (ds, pn)" by (cases p)
  from assms(1) p have ds: "ds = takeWhile digit_chars inp" and pn: "pn = port_rule_number ds"
    by (auto simp: port_rule_run)
  from url_view_of_port [OF assms(2) assms(3) [unfolded p]] obtain u where
    u: "url_view_of m = Some u" and g: "get u id_port = CHR '':'' # ds"
    and l: "len u id_port = Suc (length ds)" and n: "u_port_number u = pn"
    by blast
  have hp: "has_port u" using l by (simp add: has_port_def)
  have po: "port u = ds" using g by (simp add: port_def)
  have dg: "\<forall>c \<in> set (port u). digit_chars c"
    using po ds by (metis set_takeWhileD)
  have big: "decimal_value (port u) > 65535 \<longrightarrow> port_number u = 0"
    using po n pn by (simp add: port_number_def port_rule_number_decimal)
  have small: "decimal_value (port u) \<le> 65535 \<longrightarrow> unat (port_number u) = decimal_value (port u)"
    using po n pn by (simp add: port_number_def unat_port_rule_number)
  from po p have pf: "port u = fst p" by simp
  from po ds have pt: "port u = takeWhile digit_chars inp" by simp
  show ?thesis
    by (rule exI [of _ u])
       (rule conjI [OF u conjI [OF hp conjI [OF pf conjI [OF pt conjI [OF dg conjI [OF big small]]]]]])
qed

theorem port_number_saturates_witness:
  "port_rule ''99999/'' = Inr ((''99999'', 0), ''/'')
   \<and> (\<exists>u. url_view_of
          \<lparr> um_scheme = Some ''http'',
            um_authority = Some \<lparr> am_userinfo = None, am_host_type = host_type_name,
                                   am_host = \<lparr>pv_s = ''h'', pv_dn = 1\<rparr>,
                                   am_addr = replicate 16 0, am_port = Some (''99999'', 0) \<rparr>,
            um_path = \<lparr>pv_s = ''/'', pv_dn = 1\<rparr>, um_nseg = 1,
            um_query = None, um_frag = None \<rparr> = Some u
        \<and> has_port u \<and> port u = ''99999'' \<and> port_number u = 0)
   \<and> port_rule ''8080'' = Inr ((''8080'', 8080), [])
   \<and> (\<exists>u. url_view_of
          \<lparr> um_scheme = Some ''http'',
            um_authority = Some \<lparr> am_userinfo = None, am_host_type = host_type_name,
                                   am_host = \<lparr>pv_s = ''h'', pv_dn = 1\<rparr>,
                                   am_addr = replicate 16 0, am_port = Some (''8080'', 8080) \<rparr>,
            um_path = \<lparr>pv_s = [], pv_dn = 0\<rparr>, um_nseg = 0,
            um_query = None, um_frag = None \<rparr> = Some u
        \<and> has_port u \<and> port u = ''8080'' \<and> unat (port_number u) = 8080)"
proof -
  let ?a1 = "\<lparr> am_userinfo = None, am_host_type = host_type_name,
               am_host = \<lparr>pv_s = ''h'', pv_dn = 1\<rparr>,
               am_addr = replicate 16 0, am_port = Some (''99999'', 0 :: 16 word) \<rparr>"
  let ?m1 = "\<lparr> um_scheme = Some ''http'', um_authority = Some ?a1,
            um_path = \<lparr>pv_s = ''/'', pv_dn = 1\<rparr>, um_nseg = 1,
            um_query = None, um_frag = None \<rparr>"
  let ?a2 = "\<lparr> am_userinfo = None, am_host_type = host_type_name,
               am_host = \<lparr>pv_s = ''h'', pv_dn = 1\<rparr>,
               am_addr = replicate 16 0, am_port = Some (''8080'', 8080 :: 16 word) \<rparr>"
  let ?m2 = "\<lparr> um_scheme = Some ''http'', um_authority = Some ?a2,
            um_path = \<lparr>pv_s = [], pv_dn = 0\<rparr>, um_nseg = 0,
            um_query = None, um_frag = None \<rparr>"
  have d1: "decimal_value ''99999'' = 99999" and d2: "decimal_value ''8080'' = 8080"
    by (simp_all add: decimal_value_def digit_value_def)
  have r1: "port_rule ''99999/'' = Inr ((''99999'', 0), ''/'')"
    by (simp add: port_rule_run digit_chars_def port_rule_number_decimal d1)
  have r2: "port_rule ''8080'' = Inr ((''8080'', 8080), [])"
    by (simp add: port_rule_run digit_chars_def port_rule_number_decimal d2)
  have a1: "um_authority ?m1 = Some ?a1" and p1: "am_port ?a1 = Some (''99999'', 0)"
    and a2: "um_authority ?m2 = Some ?a2" and p2: "am_port ?a2 = Some (''8080'', 8080)"
    by simp_all
  from port_number_saturates [OF r1 a1 p1] obtain u1 where u1: "url_view_of ?m1 = Some u1"
    and h1: "has_port u1" and q1: "port u1 = fst (''99999'', 0 :: 16 word)"
    and b1: "decimal_value (port u1) > 65535 \<longrightarrow> port_number u1 = 0"
    by blast
  from q1 b1 d1 have n1: "port u1 = ''99999''" "port_number u1 = 0" by simp_all
  from port_number_saturates [OF r2 a2 p2] obtain u2 where u2: "url_view_of ?m2 = Some u2"
    and h2: "has_port u2" and q2: "port u2 = fst (''8080'', 8080 :: 16 word)"
    and b2: "decimal_value (port u2) \<le> 65535 \<longrightarrow> unat (port_number u2) = decimal_value (port u2)"
    by blast
  from q2 b2 d2 have n2: "port u2 = ''8080''" "unat (port_number u2) = 8080" by simp_all
  from r1 u1 h1 n1 r2 u2 h2 n2 show ?thesis by blast
qed

subsection \<open>Parameters of the query\<close>

lemma param_text_of: "param_text (param_of s) = s"
proof (cases "CHR ''='' \<in> set s")
  case True
  then have ne: "dropWhile (\<lambda>c. c \<noteq> CHR ''='') s \<noteq> []"
    by (simp add: dropWhile_eq_Nil_conv)
  then have "hd (dropWhile (\<lambda>c. c \<noteq> CHR ''='') s) = CHR ''=''"
    using hd_dropWhile [of "\<lambda>c. c \<noteq> CHR ''=''" s] by simp
  with ne have "dropWhile (\<lambda>c. c \<noteq> CHR ''='') s =
      CHR ''='' # drop 1 (dropWhile (\<lambda>c. c \<noteq> CHR ''='') s)"
    by (cases "dropWhile (\<lambda>c. c \<noteq> CHR ''='') s") auto
  then have "takeWhile (\<lambda>c. c \<noteq> CHR ''='') s @
      CHR ''='' # drop 1 (dropWhile (\<lambda>c. c \<noteq> CHR ''='') s) = s"
    by (metis takeWhile_dropWhile_id)
  with True show ?thesis by (simp add: param_text_def param_of_def)
next
  case False
  then have "takeWhile (\<lambda>c. c \<noteq> CHR ''='') s = s"
    by (simp add: takeWhile_eq_all_conv) blast
  with False show ?thesis by (simp add: param_text_def param_of_def)
qed

lemma map_param_text_of: "map (param_text \<circ> param_of) xs = xs"
  by (induction xs) (simp_all add: param_text_of)

lemma url_view_of_query:
  "\<exists>u. url_view_of m = Some u
     \<and> get u id_query = (case um_query m of None \<Rightarrow> [] | Some (q, n) \<Rightarrow> CHR ''?'' # pv_s q)
     \<and> len u id_query = (case um_query m of None \<Rightarrow> 0 | Some (q, n) \<Rightarrow> Suc (length (pv_s q)))
     \<and> u_nparam u = (case um_query m of None \<Rightarrow> 0 | Some (q, n) \<Rightarrow> n)"
proof -
  from url_view_of_slices [of m] obtain u where u: "url_view_of m = Some u"
    and g: "map (get u) url_parts = part_slices m"
    and l: "map (len u) url_parts = map length (part_slices m)"
    and n: "u_nparam u = (case um_query m of None \<Rightarrow> 0 | Some (q, n) \<Rightarrow> n)"
    by blast
  from g have "get u id_query = (case um_query m of None \<Rightarrow> [] | Some (q, n) \<Rightarrow> CHR ''?'' # pv_s q)"
    by (simp add: url_parts_def part_slices_def split: option.splits)
  moreover from l have
    "len u id_query = (case um_query m of None \<Rightarrow> 0 | Some (q, n) \<Rightarrow> Suc (length (pv_s q)))"
    by (simp add: url_parts_def part_slices_def split: option.splits prod.splits)
  ultimately show ?thesis using u n by blast
qed

lemma query_part_rule_count:
  "query_part_rule inp = Inr (Some (q, n), rest) \<Longrightarrow> n = Suc (count_list (pv_s q) (CHR ''&''))"
  by (cases inp) (auto simp: query_part_rule_def split: if_splits sum.splits)

text \<open>
  Claim C9. For every URL view, the parameter view is empty iff the URL has no query, and
  a present query yields at least one parameter: as many as the stored count, one more
  than the number of \<open>&\<close> in the query, whose \<open>key[=value]\<close> forms joined by \<open>&\<close> are the
  query; the empty query is one parameter with empty key and no value.
\<close>

theorem params_agree_with_query:
  assumes "query_part_rule inp = Inr (um_query m, rest)"
  shows "\<exists>u. url_view_of m = Some u
     \<and> (params_empty u \<longleftrightarrow> \<not> has_query u)
     \<and> (has_query u \<longleftrightarrow> um_query m \<noteq> None)
     \<and> (params_empty u \<longleftrightarrow> params_elems u = [])
     \<and> params_size u = length (params_elems u)
     \<and> (has_query u \<longrightarrow>
          1 \<le> length (params_elems u)
          \<and> length (params_elems u) = Suc (count_list (encoded_query u) (CHR ''&''))
          \<and> join_with (CHR ''&'') (map param_text (params_elems u)) = encoded_query u
          \<and> (encoded_query u = [] \<longrightarrow>
                params_elems u = [\<lparr>p_key = [], p_value = [], p_has_value = False\<rparr>]))"
proof -
  from url_view_of_query [of m] obtain u where u: "url_view_of m = Some u"
    and g: "get u id_query = (case um_query m of None \<Rightarrow> [] | Some (q, n) \<Rightarrow> CHR ''?'' # pv_s q)"
    and l: "len u id_query = (case um_query m of None \<Rightarrow> 0 | Some (q, n) \<Rightarrow> Suc (length (pv_s q)))"
    and n: "u_nparam u = (case um_query m of None \<Rightarrow> 0 | Some (q, n) \<Rightarrow> n)"
    by blast
  have e: "params_empty u \<longleftrightarrow> \<not> has_query u"
    by (simp add: params_empty_def)
  have h: "has_query u \<longleftrightarrow> um_query m \<noteq> None"
    using l by (auto simp: has_query_def split: option.splits)
  have el: "params_empty u \<longleftrightarrow> params_elems u = []"
    by (simp add: params_empty_def params_elems_def)
  have sz: "params_size u = length (params_elems u)"
  proof (cases "um_query m")
    case None
    with n h show ?thesis by (simp add: params_size_def params_elems_def)
  next
    case (Some qn)
    obtain q k where qn: "qn = (q, k)" by (cases qn)
    from assms Some qn have "k = Suc (count_list (pv_s q) (CHR ''&''))"
      by (simp add: query_part_rule_count)
    moreover from g Some qn have "encoded_query u = pv_s q"
      by (simp add: encoded_query_def)
    ultimately show ?thesis
      using n h Some qn by (simp add: params_size_def params_elems_def length_split_on)
  qed
  have q: "has_query u \<longrightarrow>
          1 \<le> length (params_elems u)
          \<and> length (params_elems u) = Suc (count_list (encoded_query u) (CHR ''&''))
          \<and> join_with (CHR ''&'') (map param_text (params_elems u)) = encoded_query u
          \<and> (encoded_query u = [] \<longrightarrow>
                params_elems u = [\<lparr>p_key = [], p_value = [], p_has_value = False\<rparr>])"
    by (simp add: params_elems_def length_split_on map_param_text_of join_split_on param_of_def)
  show ?thesis
    by (rule exI [of _ u]) (rule conjI [OF u conjI [OF e conjI [OF h conjI [OF el conjI [OF sz q]]]]])
qed

theorem params_agree_with_query_witness:
  "query_part_rule ''?x=1&y=&z#top'' =
      Inr (Some (\<lparr>pv_s = ''x=1&y=&z'', pv_dn = 8\<rparr>, 3), ''#top'')
   \<and> (\<exists>u. url_view_of
          \<lparr> um_scheme = None, um_authority = None,
            um_path = \<lparr>pv_s = ''/a'', pv_dn = 2\<rparr>, um_nseg = 1,
            um_query = Some (\<lparr>pv_s = ''x=1&y=&z'', pv_dn = 8\<rparr>, 3),
            um_frag = Some \<lparr>pv_s = ''top'', pv_dn = 3\<rparr> \<rparr> = Some u
        \<and> \<not> params_empty u \<and> params_size u = 3
        \<and> params_elems u =
            [\<lparr>p_key = ''x'', p_value = ''1'', p_has_value = True\<rparr>,
             \<lparr>p_key = ''y'', p_value = [], p_has_value = True\<rparr>,
             \<lparr>p_key = ''z'', p_value = [], p_has_value = False\<rparr>])"
proof -
  let ?m = "\<lparr> um_scheme = None, um_authority = None,
            um_path = \<lparr>pv_s = ''/a'', pv_dn = 2\<rparr>, um_nseg = 1,
            um_query = Some (\<lparr>pv_s = ''x=1&y=&z'', pv_dn = 8\<rparr>, 3),
            um_frag = Some \<lparr>pv_s = ''top'', pv_dn = 3\<rparr> \<rparr>"
  have r: "query_part_rule ''?x=1&y=&z#top'' =
      Inr (Some (\<lparr>pv_s = ''x=1&y=&z'', pv_dn = 8\<rparr>, 3), ''#top'')"
    by code_simp
  then have r': "query_part_rule ''?x=1&y=&z#top'' = Inr (um_query ?m, ''#top'')"
    by simp
  from params_agree_with_query [OF r'] obtain u where u: "url_view_of ?m = Some u"
    and e: "params_empty u \<longleftrightarrow> \<not> has_query u"
    and h: "has_query u \<longleftrightarrow> um_query ?m \<noteq> None"
    and s: "params_size u = length (params_elems u)"
    and j: "has_query u \<longrightarrow> join_with (CHR ''&'') (map param_text (params_elems u)) = encoded_query u"
    by blast
  from h have hq: "has_query u" by simp
  with e have ne: "\<not> params_empty u" by simp
  from url_view_of_query [of ?m] u have "get u id_query = ''?x=1&y=&z''"
    by auto
  then have "encoded_query u = ''x=1&y=&z''" by (simp add: encoded_query_def)
  with hq have el: "params_elems u =
            [\<lparr>p_key = ''x'', p_value = ''1'', p_has_value = True\<rparr>,
             \<lparr>p_key = ''y'', p_value = [], p_has_value = True\<rparr>,
             \<lparr>p_key = ''z'', p_value = [], p_has_value = False\<rparr>]"
    by (simp add: params_elems_def param_of_def)
  with s have "params_size u = 3" by simp
  with r u ne el show ?thesis by blast
qed

subsection \<open>Comparison is a total order\<close>

lemma compare_bytes_order:
  "compare_bytes a b =
     (if (map of_char a :: nat list) < map of_char b then - 1
      else if a = b then 0 else 1)"
proof (induction a b rule: compare_bytes.induct)
  case 1
  then show ?case by simp
next
  case (2 y ys)
  then show ?case by simp
next
  case (3 x xs)
  then show ?case by simp
next
  case (4 x xs y ys)
  then show ?case by (auto simp: not_less_iff_gr_or_eq)
qed

lemma map_of_char_inj: "(map of_char a :: nat list) = map of_char b \<longleftrightarrow> a = b"
  by (rule inj_map_eq_map) (simp add: inj_on_def)

lemma compare_components_order:
  "length as = length bs \<Longrightarrow>
   compare_components as bs =
     (if (map (map of_char) as :: nat list list) < map (map of_char) bs then - 1
      else if as = bs then 0 else 1)"
proof (induction as bs rule: list_induct2)
  case Nil
  then show ?case by simp
next
  case (Cons a as b bs)
  show ?case
  proof (cases "a = b")
    case True
    with Cons show ?thesis by (simp add: compare_bytes_order)
  next
    case False
    then have ne: "(map of_char a :: nat list) \<noteq> map of_char b"
      by (simp add: map_of_char_inj)
    show ?thesis
    proof (cases "(map of_char a :: nat list) < map of_char b")
      case True
      with False show ?thesis by (simp add: compare_bytes_order)
    next
      case nl: False
      with ne have "(map of_char b :: nat list) < map of_char a" by simp
      with nl False ne show ?thesis
        by (auto simp: compare_bytes_order)
    qed
  qed
qed

lemma compare_key_eq: "compare_key u = compare_key v \<longleftrightarrow> normal_components u = normal_components v"
  unfolding compare_key_def
  by (rule inj_map_eq_map) (simp add: inj_on_def map_of_char_inj)

lemma compare_order:
  "compare u v =
     (if compare_key u < compare_key v then - 1
      else if compare_key u = compare_key v then 0 else 1)"
proof -
  have "length (normal_components u) = length (normal_components v)"
    by (simp add: normal_components_def)
  from compare_components_order [OF this] show ?thesis
    by (simp add: compare_def compare_key_eq) (simp add: compare_key_def)
qed

text \<open>
  Claim C6. \<open>compare\<close> orders URL views totally: the equality derived from it is
  reflexive, symmetric and transitive; its result is -1, 0 or 1 and changes sign when the
  arguments are swapped; \<open><\<close> and \<open>\<le>\<close> are transitive, \<open>\<le>\<close> is total and antisymmetric up
  to that equality; and \<open>==\<close>, \<open>!=\<close>, \<open><\<close>, \<open><=\<close>, \<open>>\<close>, \<open>>=\<close> agree with the sign of
  \<open>compare\<close>, in particular \<open>a < b\<close> iff \<open>compare(a, b) < 0\<close>.
\<close>

theorem compare_total_order:
  "op_eq a a
   \<and> (op_eq a b \<longleftrightarrow> op_eq b a)
   \<and> (op_eq a b \<and> op_eq b c \<longrightarrow> op_eq a c)
   \<and> (compare a b = - 1 \<or> compare a b = 0 \<or> compare a b = 1)
   \<and> compare b a = - compare a b
   \<and> (op_lt a b \<and> op_lt b c \<longrightarrow> op_lt a c)
   \<and> (op_le a b \<and> op_le b c \<longrightarrow> op_le a c)
   \<and> (op_le a b \<and> op_le b a \<longrightarrow> op_eq a b)
   \<and> (op_le a b \<or> op_le b a)
   \<and> (op_lt a b \<longleftrightarrow> compare a b < 0)
   \<and> (op_eq a b \<longleftrightarrow> compare a b = 0)
   \<and> (op_ne a b \<longleftrightarrow> compare a b \<noteq> 0)
   \<and> (op_le a b \<longleftrightarrow> compare a b \<le> 0)
   \<and> (op_gt a b \<longleftrightarrow> compare a b > 0)
   \<and> (op_ge a b \<longleftrightarrow> compare a b \<ge> 0)
   \<and> (op_gt a b \<longleftrightarrow> op_lt b a)
   \<and> (op_ge a b \<longleftrightarrow> op_le b a)"
  unfolding op_eq_def op_ne_def op_lt_def op_le_def op_gt_def op_ge_def compare_order
  by auto

theorem compare_total_order_witness:
  "op_eq (apply_path \<lparr>pv_s = ''/%7e'', pv_dn = 2\<rparr> 1 (apply_scheme ''HTTP'' (url_impl_init False ''HTTP:/%7e'')))
         (apply_path \<lparr>pv_s = ''/~'', pv_dn = 2\<rparr> 1 (apply_scheme ''http'' (url_impl_init False ''http:/~'')))
   \<and> op_lt (apply_path \<lparr>pv_s = ''/~'', pv_dn = 2\<rparr> 1 (apply_scheme ''http'' (url_impl_init False ''http:/~'')))
           (apply_path \<lparr>pv_s = ''/~x'', pv_dn = 3\<rparr> 1 (apply_scheme ''http'' (url_impl_init False ''http:/~x'')))
   \<and> compare (apply_path \<lparr>pv_s = ''/~x'', pv_dn = 3\<rparr> 1 (apply_scheme ''http'' (url_impl_init False ''http:/~x'')))
           (apply_path \<lparr>pv_s = ''/~'', pv_dn = 2\<rparr> 1 (apply_scheme ''http'' (url_impl_init False ''http:/~''))) = 1
   \<and> op_le (apply_path \<lparr>pv_s = ''/%7e'', pv_dn = 2\<rparr> 1 (apply_scheme ''HTTP'' (url_impl_init False ''HTTP:/%7e'')))
           (apply_path \<lparr>pv_s = ''/~x'', pv_dn = 3\<rparr> 1 (apply_scheme ''http'' (url_impl_init False ''http:/~x'')))"
proof -
  define a where "a = apply_path \<lparr>pv_s = ''/%7e'', pv_dn = 2\<rparr> 1 (apply_scheme ''HTTP'' (url_impl_init False ''HTTP:/%7e''))"
  define b where "b = apply_path \<lparr>pv_s = ''/~'', pv_dn = 2\<rparr> 1 (apply_scheme ''http'' (url_impl_init False ''http:/~''))"
  define c where "c = apply_path \<lparr>pv_s = ''/~x'', pv_dn = 3\<rparr> 1 (apply_scheme ''http'' (url_impl_init False ''http:/~x''))"
  have ab: "compare a b = 0" unfolding a_def b_def by code_simp
  have bc: "compare b c = - 1" unfolding b_def c_def by code_simp
  have 1: "op_eq a b"
    using compare_total_order [of a b c] ab by blast
  have 2: "op_lt b c"
    using compare_total_order [of b c a] bc by simp
  have 3: "compare c b = 1"
    using compare_total_order [of b c a] bc by simp
  have "op_le a b"
    using compare_total_order [of a b c] ab by simp
  moreover have "op_le b c"
    using compare_total_order [of b c a] bc by simp
  ultimately have 4: "op_le a c"
    using compare_total_order [of a b c] by blast
  from 1 2 3 4 show ?thesis unfolding a_def b_def c_def by blast
qed

subsection \<open>Lookups by key\<close>

lemma percent_not_hex: "\<not> hexdig_chars (CHR ''%'')"
  by (simp add: hexdig_chars_def)

lemma pct_invalid_iff:
  "pct_invalid s \<longleftrightarrow>
     (\<exists>i < length s. s ! i = CHR ''%'' \<and>
        \<not> (i + 2 < length s \<and> hexdig_chars (s ! (i + 1)) \<and> hexdig_chars (s ! (i + 2))))"
  by (auto simp: pct_invalid_def list_ex_iff)

lemma pct_invalid_Cons_plain:
  "c \<noteq> CHR ''%'' \<Longrightarrow> pct_invalid (c # xs) \<longleftrightarrow> pct_invalid xs"
proof
  assume c: "c \<noteq> CHR ''%''" and "pct_invalid (c # xs)"
  then obtain i where i: "i < length (c # xs)" "(c # xs) ! i = CHR ''%''"
    "\<not> (i + 2 < length (c # xs) \<and> hexdig_chars ((c # xs) ! (i + 1)) \<and> hexdig_chars ((c # xs) ! (i + 2)))"
    unfolding pct_invalid_iff by blast
  with c obtain j where j: "i = Suc j" by (cases i) auto
  with i show "pct_invalid xs"
    unfolding pct_invalid_iff by (intro exI [of _ j]) simp
next
  assume "c \<noteq> CHR ''%''" and "pct_invalid xs"
  then obtain j where "j < length xs" "xs ! j = CHR ''%''"
    "\<not> (j + 2 < length xs \<and> hexdig_chars (xs ! (j + 1)) \<and> hexdig_chars (xs ! (j + 2)))"
    unfolding pct_invalid_iff by blast
  then show "pct_invalid (c # xs)"
    unfolding pct_invalid_iff by (intro exI [of _ "Suc j"]) simp
qed

lemma pct_invalid_triplet:
  assumes "hexdig_chars h1" "hexdig_chars h2"
  shows "pct_invalid (CHR ''%'' # h1 # h2 # ys) \<longleftrightarrow> pct_invalid ys"
proof
  assume "pct_invalid (CHR ''%'' # h1 # h2 # ys)"
  then obtain i where i: "i < length (CHR ''%'' # h1 # h2 # ys)"
    "(CHR ''%'' # h1 # h2 # ys) ! i = CHR ''%''"
    "\<not> (i + 2 < length (CHR ''%'' # h1 # h2 # ys)
        \<and> hexdig_chars ((CHR ''%'' # h1 # h2 # ys) ! (i + 1))
        \<and> hexdig_chars ((CHR ''%'' # h1 # h2 # ys) ! (i + 2)))"
    unfolding pct_invalid_iff by blast
  have "i \<noteq> 0"
  proof
    assume "i = 0"
    with i(3) assms show False by simp
  qed
  moreover have "i \<noteq> 1"
  proof
    assume "i = 1"
    with i(2) assms percent_not_hex show False by simp
  qed
  moreover have "i \<noteq> 2"
  proof
    assume "i = 2"
    with i(2) assms percent_not_hex show False by simp
  qed
  ultimately have "3 \<le> i" by arith
  then have "i = Suc (Suc (Suc (i - 3)))" by simp
  then obtain j where j: "i = Suc (Suc (Suc j))" ..
  with i show "pct_invalid ys"
    unfolding pct_invalid_iff by (intro exI [of _ j]) simp
next
  assume "pct_invalid ys"
  then obtain j where "j < length ys" "ys ! j = CHR ''%''"
    "\<not> (j + 2 < length ys \<and> hexdig_chars (ys ! (j + 1)) \<and> hexdig_chars (ys ! (j + 2)))"
    unfolding pct_invalid_iff by blast
  then show "pct_invalid (CHR ''%'' # h1 # h2 # ys)"
    unfolding pct_invalid_iff by (intro exI [of _ "Suc (Suc (Suc j))"]) simp
qed

lemma pct_invalid_bad_triplet:
  "\<not> (\<exists>h1 h2 ys. xs = h1 # h2 # ys \<and> hexdig_chars h1 \<and> hexdig_chars h2) \<Longrightarrow>
   pct_invalid (CHR ''%'' # xs)"
  unfolding pct_invalid_iff
  by (intro exI [of _ 0]) (cases xs; cases "tl xs"; auto)

lemma pct_invalid_Nil: "\<not> pct_invalid []"
  by (simp add: pct_invalid_def)

lemma validate_all:
  "pct_encoded_run (\<lambda>c. True) s =
     (if pct_invalid s then Inl error_invalid_percent
      else Inr (s, decoded_count s, []))"
proof (induction "\<lambda>c::char. True" s rule: pct_encoded_run.induct)
  case 1
  then show ?case by (simp add: pct_invalid_Nil)
next
  case (2 c xs)
  show ?case
  proof (cases "c = CHR ''%''")
    case False
    with 2(2) [OF False] show ?thesis
      by (simp add: pct_invalid_Cons_plain)
  next
    case True
    show ?thesis
    proof (cases "\<exists>h1 h2 ys. xs = h1 # h2 # ys \<and> hexdig_chars h1 \<and> hexdig_chars h2")
      case False
      then have "pct_invalid (c # xs)" using True by (simp add: pct_invalid_bad_triplet)
      moreover from False True have "pct_encoded_run (\<lambda>c. True) (c # xs) = Inl error_invalid_percent"
        by (cases xs; cases "tl xs") auto
      ultimately show ?thesis by simp
    next
      case ex: True
      then obtain h1 h2 ys where xs: "xs = h1 # h2 # ys" and hex: "hexdig_chars h1 \<and> hexdig_chars h2"
        by blast
      from 2(1) [OF True xs _ hex] have
        "pct_encoded_run (\<lambda>c. True) ys =
           (if pct_invalid ys then Inl error_invalid_percent else Inr (ys, decoded_count ys, []))"
        by simp
      with True xs hex show ?thesis
        by (simp add: pct_invalid_triplet)
    qed
  qed
qed

lemma checked_pct_string_view_iff:
  "checked_pct_string_view s =
     (if pct_invalid s then Inl error_invalid_percent
      else Inr \<lparr>pv_s = s, pv_dn = decoded_count s\<rparr>)"
  by (simp add: checked_pct_string_view_def validate_all)

lemma key_matches_same_key:
  "key_matches ic \<lparr>pv_s = k, pv_dn = n\<rparr> p = same_key ic (p_key p) k"
  by (simp add: key_matches_def key_fold_def same_key_def)

lemma find_loop_takeWhile:
  "find_loop ps it key ic = it + length (takeWhile (\<lambda>p. \<not> key_matches ic key p) ps)"
  by (induction ps arbitrary: it) simp_all

lemma count_loop_filter:
  "count_loop ps key ic = length (filter (key_matches ic key) ps)"
  by (induction ps) simp_all

lemma find_last_loop_spec:
  "it \<le> length ps \<Longrightarrow> it \<le> e \<Longrightarrow>
   (let r = find_last_loop ps it e key ic in
      (r = e \<and> (\<forall>j<it. \<not> key_matches ic key (ps ! j)))
      \<or> (r < it \<and> key_matches ic key (ps ! r)
           \<and> (\<forall>j. r < j \<and> j < it \<longrightarrow> \<not> key_matches ic key (ps ! j))))"
proof (induction it)
  case 0
  then show ?case by simp
next
  case (Suc it)
  show ?case
  proof (cases "key_matches ic key (ps ! it)")
    case True
    then show ?thesis by (auto simp: Let_def)
  next
    case False
    from Suc have ih: "let r = find_last_loop ps it e key ic in
      (r = e \<and> (\<forall>j<it. \<not> key_matches ic key (ps ! j)))
      \<or> (r < it \<and> key_matches ic key (ps ! r)
           \<and> (\<forall>j. r < j \<and> j < it \<longrightarrow> \<not> key_matches ic key (ps ! j)))"
      by simp
    with False show ?thesis
      by (auto simp: Let_def less_Suc_eq)
  qed
qed

lemma find_impl_spec:
  assumes "from \<le> length (params_elems u)"
  shows "let i = find_impl u from \<lparr>pv_s = k, pv_dn = n\<rparr> ic; ps = params_elems u in
           from \<le> i \<and> i \<le> length ps
           \<and> (i < length ps \<longrightarrow> same_key ic (p_key (ps ! i)) k)
           \<and> (\<forall>j. from \<le> j \<and> j < i \<longrightarrow> \<not> same_key ic (p_key (ps ! j)) k)"
proof -
  let ?ps = "params_elems u"
  let ?P = "\<lambda>p. \<not> key_matches ic \<lparr>pv_s = k, pv_dn = n\<rparr> p"
  let ?t = "takeWhile ?P (drop from ?ps)"
  have i: "find_impl u from \<lparr>pv_s = k, pv_dn = n\<rparr> ic = from + length ?t"
    by (simp add: find_impl_def find_loop_takeWhile)
  have le: "length ?t \<le> length ?ps - from"
    using length_takeWhile_le [of ?P "drop from ?ps"] by simp
  have hit: "from + length ?t < length ?ps \<longrightarrow> same_key ic (p_key (?ps ! (from + length ?t))) k"
  proof
    assume lt: "from + length ?t < length ?ps"
    then have "length ?t < length (drop from ?ps)" by simp
    then have "\<not> ?P (drop from ?ps ! length ?t)"
      by (rule nth_length_takeWhile)
    with lt show "same_key ic (p_key (?ps ! (from + length ?t))) k"
      by (simp add: key_matches_same_key)
  qed
  have miss: "\<forall>j. from \<le> j \<and> j < from + length ?t \<longrightarrow> \<not> same_key ic (p_key (?ps ! j)) k"
  proof (intro allI impI)
    fix j assume j: "from \<le> j \<and> j < from + length ?t"
    then have "j - from < length ?t" by arith
    then have "?t ! (j - from) \<in> set ?t" by (rule nth_mem)
    then have "?P (?t ! (j - from))" by (rule set_takeWhileD [THEN conjunct2])
    moreover have "?t ! (j - from) = drop from ?ps ! (j - from)"
      using \<open>j - from < length ?t\<close> by (rule takeWhile_nth)
    moreover have "drop from ?ps ! (j - from) = ?ps ! j"
      using j assms by simp
    ultimately show "\<not> same_key ic (p_key (?ps ! j)) k"
      by (simp add: key_matches_same_key)
  qed
  from le assms have "from + length ?t \<le> length ?ps" by arith
  with i hit miss show ?thesis by (simp add: Let_def)
qed

lemma contains_spec:
  "find_impl u 0 \<lparr>pv_s = k, pv_dn = n\<rparr> ic \<noteq> length (params_elems u) \<longleftrightarrow>
     (\<exists>p \<in> set (params_elems u). same_key ic (p_key p) k)"
proof -
  let ?ps = "params_elems u"
  let ?P = "\<lambda>p. \<not> key_matches ic \<lparr>pv_s = k, pv_dn = n\<rparr> p"
  have "find_impl u 0 \<lparr>pv_s = k, pv_dn = n\<rparr> ic = length (takeWhile ?P ?ps)"
    by (simp add: find_impl_def find_loop_takeWhile)
  moreover have "length (takeWhile ?P ?ps) = length ?ps \<longleftrightarrow> (\<forall>p \<in> set ?ps. ?P p)"
  proof
    assume "length (takeWhile ?P ?ps) = length ?ps"
    then have "takeWhile ?P ?ps = ?ps"
      by (metis takeWhile_eq_take take_all order_refl)
    then show "\<forall>p \<in> set ?ps. ?P p"
      by (metis set_takeWhileD)
  next
    assume "\<forall>p \<in> set ?ps. ?P p"
    then have "takeWhile ?P ?ps = ?ps" by (simp add: takeWhile_eq_all_conv)
    then show "length (takeWhile ?P ?ps) = length ?ps" by (simp only:)
  qed
  ultimately show ?thesis by (auto simp: key_matches_same_key)
qed

lemma find_last_impl_spec:
  "let i = find_last_impl u (length (params_elems u)) \<lparr>pv_s = k, pv_dn = n\<rparr> ic;
       ps = params_elems u in
     i \<le> length ps
     \<and> (i < length ps \<longrightarrow>
          same_key ic (p_key (ps ! i)) k
          \<and> (\<forall>j. i < j \<and> j < length ps \<longrightarrow> \<not> same_key ic (p_key (ps ! j)) k))
     \<and> (i = length ps \<longrightarrow> (\<forall>j < length ps. \<not> same_key ic (p_key (ps ! j)) k))"
proof -
  let ?ps = "params_elems u"
  have "length ?ps \<le> length ?ps" by simp
  from find_last_loop_spec [OF this this, of "\<lparr>pv_s = k, pv_dn = n\<rparr>" ic]
  show ?thesis
    by (auto simp: find_last_impl_def Let_def key_matches_same_key)
qed

text \<open>
  Claim C5. Every lookup (\<open>contains\<close>, \<open>count\<close>, \<open>find\<close>, \<open>find_last\<close>,
  \<open>find(from, key)\<close>) compares the supplied key with the stored keys as if both were
  percent-decoded, and case-folded when \<open>ignore_case\<close> is requested; a supplied key whose
  percent-encoding is invalid makes each of them report the parse error, never a
  "not found" result (\<open>false\<close>, 0 or \<open>end()\<close>).
\<close>

theorem lookup_by_decoded_key:
  "(pct_invalid key \<longrightarrow>
      params_contains u key ic = Inl error_invalid_percent
      \<and> params_count u key ic = Inl error_invalid_percent
      \<and> params_find u key ic = Inl error_invalid_percent
      \<and> params_find_last u key ic = Inl error_invalid_percent
      \<and> params_find_from u from key ic = Inl error_invalid_percent)
   \<and> (\<not> pct_invalid key \<longrightarrow>
      params_contains u key ic = Inr (\<exists>p \<in> set (params_elems u). same_key ic (p_key p) key)
      \<and> params_count u key ic =
           Inr (length (filter (\<lambda>p. same_key ic (p_key p) key) (params_elems u)))
      \<and> (\<exists>i. params_find u key ic = Inr i \<and> i \<le> length (params_elems u)
             \<and> (i < length (params_elems u) \<longrightarrow> same_key ic (p_key (params_elems u ! i)) key)
             \<and> (\<forall>j. j < i \<longrightarrow> \<not> same_key ic (p_key (params_elems u ! j)) key))
      \<and> (from \<le> length (params_elems u) \<longrightarrow>
            (\<exists>i. params_find_from u from key ic = Inr i
               \<and> from \<le> i \<and> i \<le> length (params_elems u)
               \<and> (i < length (params_elems u) \<longrightarrow> same_key ic (p_key (params_elems u ! i)) key)
               \<and> (\<forall>j. from \<le> j \<and> j < i \<longrightarrow> \<not> same_key ic (p_key (params_elems u ! j)) key)))
      \<and> (\<exists>i. params_find_last u key ic = Inr i \<and> i \<le> length (params_elems u)
             \<and> (i < length (params_elems u) \<longrightarrow>
                   same_key ic (p_key (params_elems u ! i)) key
                   \<and> (\<forall>j. i < j \<and> j < length (params_elems u) \<longrightarrow>
                          \<not> same_key ic (p_key (params_elems u ! j)) key))
             \<and> (i = length (params_elems u) \<longrightarrow>
                   (\<forall>j < length (params_elems u). \<not> same_key ic (p_key (params_elems u ! j)) key))))"
proof (intro conjI impI)
  assume bad: "pct_invalid key"
  then have c: "checked_pct_string_view key = Inl error_invalid_percent"
    by (simp add: checked_pct_string_view_iff)
  show "params_contains u key ic = Inl error_invalid_percent"
    by (simp add: params_contains_def c)
  show "params_count u key ic = Inl error_invalid_percent"
    by (simp add: params_count_def c)
  show "params_find u key ic = Inl error_invalid_percent"
    by (simp add: params_find_def params_find_from_def c)
  show "params_find_last u key ic = Inl error_invalid_percent"
    by (simp add: params_find_last_def c)
  show "params_find_from u from key ic = Inl error_invalid_percent"
    by (simp add: params_find_from_def c)
next
  assume ok: "\<not> pct_invalid key"
  then have c: "checked_pct_string_view key = Inr \<lparr>pv_s = key, pv_dn = decoded_count key\<rparr>"
    by (simp add: checked_pct_string_view_iff)
  let ?k = "\<lparr>pv_s = key, pv_dn = decoded_count key\<rparr>"
  show "params_contains u key ic = Inr (\<exists>p \<in> set (params_elems u). same_key ic (p_key p) key)"
    by (simp add: params_contains_def c contains_spec)
  show "params_count u key ic =
           Inr (length (filter (\<lambda>p. same_key ic (p_key p) key) (params_elems u)))"
    by (simp add: params_count_def c count_loop_filter key_matches_same_key [abs_def])
  show "\<exists>i. params_find u key ic = Inr i \<and> i \<le> length (params_elems u)
             \<and> (i < length (params_elems u) \<longrightarrow> same_key ic (p_key (params_elems u ! i)) key)
             \<and> (\<forall>j. j < i \<longrightarrow> \<not> same_key ic (p_key (params_elems u ! j)) key)"
    using find_impl_spec [of 0 u key "decoded_count key" ic]
    by (simp add: params_find_def params_find_from_def c Let_def)
  show "\<exists>i. params_find_last u key ic = Inr i \<and> i \<le> length (params_elems u)
             \<and> (i < length (params_elems u) \<longrightarrow>
                   same_key ic (p_key (params_elems u ! i)) key
                   \<and> (\<forall>j. i < j \<and> j < length (params_elems u) \<longrightarrow>
                          \<not> same_key ic (p_key (params_elems u ! j)) key))
             \<and> (i = length (params_elems u) \<longrightarrow>
                   (\<forall>j < length (params_elems u). \<not> same_key ic (p_key (params_elems u ! j)) key))"
    using find_last_impl_spec [of u key "decoded_count key" ic]
    by (simp add: params_find_last_def c Let_def)
  assume fr: "from \<le> length (params_elems u)"
  show "\<exists>i. params_find_from u from key ic = Inr i
               \<and> from \<le> i \<and> i \<le> length (params_elems u)
               \<and> (i < length (params_elems u) \<longrightarrow> same_key ic (p_key (params_elems u ! i)) key)
               \<and> (\<forall>j. from \<le> j \<and> j < i \<longrightarrow> \<not> same_key ic (p_key (params_elems u ! j)) key)"
    using find_impl_spec [OF fr, of key "decoded_count key" ic]
    by (simp add: params_find_from_def c Let_def)
qed

theorem lookup_by_decoded_key_witness:
  "params_contains
      (apply_query \<lparr>pv_s = ''first=John&la%73t=Doe'', pv_dn = 19\<rparr> 2
         (url_impl_init False ''?first=John&la%73t=Doe'')) ''%zz'' False
     = Inl error_invalid_percent
   \<and> params_contains
      (apply_query \<lparr>pv_s = ''first=John&la%73t=Doe'', pv_dn = 19\<rparr> 2
         (url_impl_init False ''?first=John&la%73t=Doe'')) ''last'' False
     = Inr True
   \<and> params_contains
      (apply_query \<lparr>pv_s = ''first=John&la%73t=Doe'', pv_dn = 19\<rparr> 2
         (url_impl_init False ''?first=John&la%73t=Doe'')) ''First'' False
     = Inr False
   \<and> params_count
      (apply_query \<lparr>pv_s = ''first=John&la%73t=Doe'', pv_dn = 19\<rparr> 2
         (url_impl_init False ''?first=John&la%73t=Doe'')) ''First'' True
     = Inr 1"
proof -
  define u where "u = apply_query \<lparr>pv_s = ''first=John&la%73t=Doe'', pv_dn = 19\<rparr> 2
         (url_impl_init False ''?first=John&la%73t=Doe'')"
  have el: "params_elems u =
      [\<lparr>p_key = ''first'', p_value = ''John'', p_has_value = True\<rparr>,
       \<lparr>p_key = ''la%73t'', p_value = ''Doe'', p_has_value = True\<rparr>]"
    unfolding u_def by code_simp
  have bad: "pct_invalid ''%zz''" by code_simp
  have ok1: "\<not> pct_invalid ''last''" by code_simp
  have ok2: "\<not> pct_invalid ''First''" by code_simp
  have k1: "same_key False ''la%73t'' ''last''" by code_simp
  have k2: "\<not> same_key False ''first'' ''last''" by code_simp
  have k3: "\<not> same_key False ''first'' ''First''" by code_simp
  have k4: "\<not> same_key False ''la%73t'' ''First''" by code_simp
  have k5: "same_key True ''first'' ''First''" by code_simp
  have k6: "\<not> same_key True ''la%73t'' ''First''" by code_simp
  have 1: "params_contains u ''%zz'' False = Inl error_invalid_percent"
    using lookup_by_decoded_key [of "''%zz''" u False 0] bad by blast
  have "params_contains u ''last'' False =
      Inr (\<exists>p \<in> set (params_elems u). same_key False (p_key p) ''last'')"
    using lookup_by_decoded_key [of "''last''" u False 0] ok1 by blast
  then have 2: "params_contains u ''last'' False = Inr True"
    using k1 by (simp add: el)
  have "params_contains u ''First'' False =
      Inr (\<exists>p \<in> set (params_elems u). same_key False (p_key p) ''First'')"
    using lookup_by_decoded_key [of "''First''" u False 0] ok2 by blast
  then have 3: "params_contains u ''First'' False = Inr False"
    using k3 k4 by (simp add: el)
  have "params_count u ''First'' True =
      Inr (length (filter (\<lambda>p. same_key True (p_key p) ''First'') (params_elems u)))"
    using lookup_by_decoded_key [of "''First''" u True 0] ok2 by blast
  then have 4: "params_count u ''First'' True = Inr 1"
    using k5 k6 by (simp add: el)
  from 1 2 3 4 show ?thesis unfolding u_def by blast
qed

end
